theory Spec2Isabelle
  imports Main "HOL-Library.Char_ord" "HOL-Library.List_Lexorder" "HOL-Library.AList"
    "HOL-Library.Multiset"
begin

section \<open>Strings and identifiers\<close>

text \<open>
  Profile ids, document ids and message texts are JavaScript strings, modelled as
  \<^typ>\<open>string\<close>.  The default comparator of \<^verbatim>\<open>Array.prototype.sort\<close> orders strings
  lexicographically by code unit, a proper prefix first; this is the order on
  \<^typ>\<open>char list\<close> given by the lexicographic list order over the order of characters.
  Times are milliseconds since the epoch, as \<^verbatim>\<open>Date.getTime()\<close> returns them; counters
  are JavaScript numbers holding integers.
\<close>

type_synonym doc_id = string
type_synonym timestamp = int

text \<open>\<^verbatim>\<open>Array.prototype.join\<close>: the elements separated by \<open>sep\<close>.\<close>

fun join :: "string \<Rightarrow> string list \<Rightarrow> string" where
  "join sep [] = []"
| "join sep [x] = x"
| "join sep (x # y # ys) = x @ sep @ join sep (y # ys)"

text \<open>
  \<^verbatim>\<open>getChatId = (userId1, userId2) => [userId1, userId2].sort().join('_')\<close>.
  The sort is stable, as insertion sort is.
\<close>

definition getChatId :: "string \<Rightarrow> string \<Rightarrow> string" where
  "getChatId userId1 userId2 = join ''_'' (sort [userId1, userId2])"

text \<open>\<^verbatim>\<open>String.prototype.startsWith\<close>.\<close>

definition startsWith :: "string \<Rightarrow> string \<Rightarrow> bool" where
  "startsWith s p = (take (length p) s = p)"

text \<open>
  \<^verbatim>\<open>String.prototype.trim\<close> removes white space and line terminators from both ends.
  Of those, the characters below are the ones an 8-bit \<^typ>\<open>char\<close> can hold: tab, line
  feed, vertical tab, form feed, carriage return, space and no-break space.
\<close>

definition isWhiteSpace :: "char \<Rightarrow> bool" where
  "isWhiteSpace c = (c \<in> set [CHR 0x09, CHR 0x0A, CHR 0x0B, CHR 0x0C, CHR 0x0D, CHR '' '', CHR 0xA0])"

definition trim :: "string \<Rightarrow> string" where
  "trim s = rev (dropWhile isWhiteSpace (rev (dropWhile isWhiteSpace s)))"

section \<open>Data model\<close>

text \<open>The interfaces of \<^verbatim>\<open>types/index.ts\<close>.\<close>

record animal =
  animal_id :: string
  animal_name :: string
  animal_type :: string
  animal_age :: int
  animal_breed :: string
  animal_image :: string
  animal_bio :: string
  animal_ownerId :: string

record user =
  user_id :: string
  user_name :: string
  user_email :: string
  user_photoURL :: "string option"
  user_phone :: "string option"
  user_createdAt :: "timestamp option"

record match =
  match_id :: doc_id
  match_userId1 :: string
  match_userId2 :: string
  match_animal1Id :: string
  match_animal1 :: "animal option"
  match_animal2Id :: string
  match_animal2 :: "animal option"
  match_timestamp :: timestamp

text \<open>
  A stored message document has the fields of \<^verbatim>\<open>Message\<close>, its \<open>id\<close> being the document
  id; \<^verbatim>\<open>sendMessage\<close> writes every one of them.
\<close>

record message =
  msg_id :: doc_id
  msg_chatId :: doc_id
  msg_senderId :: string
  msg_receiverId :: string
  msg_text :: string
  msg_timestamp :: timestamp
  msg_read :: bool

record chat =
  chat_id :: doc_id
  chat_userId1 :: string
  chat_userId2 :: string
  chat_lastMessage :: "string option"
  chat_lastMessageTime :: "timestamp option"
  chat_unreadCount1 :: int
  chat_unreadCount2 :: int
  chat_user1Data :: "user option"
  chat_user2Data :: "user option"

text \<open>
  Documents as they are stored.  The services read every field of a chat, match or like
  document defensively (\<^verbatim>\<open>data.unreadCount1 || 0\<close>, \<^verbatim>\<open>data.userId1 || ''\<close>), so every
  field may be missing.
\<close>

record chat_doc =
  cd_userId1 :: "string option"
  cd_userId2 :: "string option"
  cd_lastMessage :: "string option"
  cd_lastMessageTime :: "timestamp option"
  cd_unreadCount1 :: "int option"
  cd_unreadCount2 :: "int option"

record match_doc =
  md_userId1 :: "string option"
  md_userId2 :: "string option"
  md_animal1Id :: "string option"
  md_animal1 :: "animal option"
  md_animal2Id :: "string option"
  md_animal2 :: "animal option"
  md_createdAt :: "timestamp option"

record like_doc =
  ld_likerUserId :: "string option"
  ld_likedAnimalId :: "string option"
  ld_ownerId :: "string option"
  ld_createdAt :: "timestamp option"

text \<open>
  The collections, each a list of documents under distinct ids; \<open>messages\<close> gives the
  subcollection of each chat.  The order of a list is the order in which a query lists the
  documents.  A chat document whose \<^verbatim>\<open>data()\<close> is null, a case the services test for
  separately from \<^verbatim>\<open>exists()\<close>, is stored as \<open>None\<close>.
\<close>

record store =
  chats :: "(doc_id \<times> chat_doc option) list"
  messages :: "doc_id \<Rightarrow> message list"
  users :: "(doc_id \<times> user) list"
  matches :: "(doc_id \<times> match_doc) list"
  likes :: "(doc_id \<times> like_doc) list"

datatype error = ChatDoesNotExist | ChatDataIsNull | StoreRejected | UnsupportedFieldValue

text \<open>What \<^verbatim>\<open>chatsCollection.doc(chatId).get()\<close> finds.\<close>

datatype chat_snapshot = Absent | Empty | Doc chat_doc

definition getChat :: "store \<Rightarrow> doc_id \<Rightarrow> chat_snapshot" where
  "getChat s chatId =
     (case map_of (chats s) chatId of
        None \<Rightarrow> Absent
      | Some None \<Rightarrow> Empty
      | Some (Some d) \<Rightarrow> Doc d)"

text \<open>The defaults applied when a field is read.\<close>

definition or_zero :: "int option \<Rightarrow> int" where
  "or_zero c = (case c of None \<Rightarrow> 0 | Some n \<Rightarrow> n)"

text \<open>
  \<^verbatim>\<open>currentCount + 1\<close>.  A counter is a JavaScript number, a double, and holds an
  integer: the services write \<open>0\<close> and \<^verbatim>\<open>currentCount + 1\<close> to it.  Every integer from
  \<open>-2\<^sup>5\<^sup>3\<close> to \<open>2\<^sup>5\<^sup>3\<close> is a double, and the sum is exact when it is in this range.
  Outside it the doubles are even integers, so the odd exact sum is no double and is
  rounded to the nearest one, which is \<open>c\<close> itself where the doubles are four or more
  apart; where they are two apart the sum lies half-way between \<open>c\<close> and \<open>c + 2\<close> and
  is rounded to the one of them with the even significand, the multiple of \<open>4\<close>.  Where
  the doubles are four or more apart each of them is a multiple of \<open>4\<close>.
\<close>

definition plus_one :: "int \<Rightarrow> int" where
  "plus_one c =
     (if - (2 ^ 53) \<le> c \<and> c < 2 ^ 53 then c + 1
      else if c mod 4 = 0 then c else c + 2)"

definition or_string :: "string option \<Rightarrow> string \<Rightarrow> string" where
  "or_string x dflt = (case x of None \<Rightarrow> dflt | Some v \<Rightarrow> (if v = [] then dflt else v))"

definition or_undefined :: "string option \<Rightarrow> string option" where
  "or_undefined x = (case x of None \<Rightarrow> None | Some v \<Rightarrow> (if v = [] then None else Some v))"

section \<open>Transactions\<close>

text \<open>The object passed to \<^verbatim>\<open>transaction.update(chatRef, updateData)\<close>: the fields it sets.\<close>

record chat_update =
  set_lastMessage :: "string option"
  set_lastMessageTime :: "timestamp option"
  set_unreadCount1 :: "int option"
  set_unreadCount2 :: "int option"

definition no_update :: chat_update where
  "no_update = \<lparr>set_lastMessage = None, set_lastMessageTime = None,
     set_unreadCount1 = None, set_unreadCount2 = None\<rparr>"

definition or_else :: "'a option \<Rightarrow> 'a option \<Rightarrow> 'a option" where
  "or_else new old = (case new of None \<Rightarrow> old | Some v \<Rightarrow> Some v)"

definition apply_update :: "chat_update \<Rightarrow> chat_doc \<Rightarrow> chat_doc" where
  "apply_update u d = d\<lparr>
     cd_lastMessage := or_else (set_lastMessage u) (cd_lastMessage d),
     cd_lastMessageTime := or_else (set_lastMessageTime u) (cd_lastMessageTime d),
     cd_unreadCount1 := or_else (set_unreadCount1 u) (cd_unreadCount1 d),
     cd_unreadCount2 := or_else (set_unreadCount2 u) (cd_unreadCount2 d)\<rparr>"

text \<open>
  The writes a transaction buffers: \<^verbatim>\<open>transaction.set(messageRef, message)\<close>,
  \<^verbatim>\<open>transaction.update(doc.ref, {read: true})\<close> on a message, and
  \<^verbatim>\<open>transaction.update(chatRef, updateData)\<close>.
\<close>

datatype "write" =
    SetMessage doc_id message
  | UpdateMessageRead doc_id doc_id
  | UpdateChat doc_id chat_update

text \<open>
  One write applied to the store.  \<^verbatim>\<open>set\<close> creates the document or replaces the one
  with the same id; \<^verbatim>\<open>update\<close> fails on a document that does not exist.
\<close>

fun apply_write :: "write \<Rightarrow> store \<Rightarrow> store option" where
  "apply_write (SetMessage c m) s =
     (let ms = messages s c in
      Some (s\<lparr>messages := (messages s)(c :=
        (if msg_id m \<in> set (map msg_id ms)
         then map (\<lambda>x. if msg_id x = msg_id m then m else x) ms
         else ms @ [m]))\<rparr>))"
| "apply_write (UpdateMessageRead c i) s =
     (let ms = messages s c in
      if i \<in> set (map msg_id ms)
      then Some (s\<lparr>messages := (messages s)(c :=
             map (\<lambda>x. if msg_id x = i then x\<lparr>msg_read := True\<rparr> else x) ms)\<rparr>)
      else None)"
| "apply_write (UpdateChat c u) s =
     (case getChat s c of
        Doc d \<Rightarrow> Some (s\<lparr>chats := AList.update c (Some (apply_update u d)) (chats s)\<rparr>)
      | _ \<Rightarrow> None)"

text \<open>The buffered writes are committed together: if one of them fails, none is applied.\<close>

fun commit :: "write list \<Rightarrow> store \<Rightarrow> store option" where
  "commit [] s = Some s"
| "commit (w # ws) s = (case apply_write w s of None \<Rightarrow> None | Some s' \<Rightarrow> commit ws s')"

text \<open>
  \<^verbatim>\<open>firestore().runTransaction(updateFunction)\<close>.  The update function reads documents
  through \<^verbatim>\<open>transaction.get\<close> and either throws or returns the writes it buffered.  A
  throw rejects the transaction with that error and nothing is written.  Otherwise the
  store commits the writes atomically, or rejects the transaction (\<open>accepted\<close> is false:
  the network is down, or the internal retries are used up), again writing nothing.  The
  store runs the update function again when a document it read through the transaction
  has changed before the commit, so these reads and the writes take effect at one instant,
  on the state \<open>s\<close>.  The result is the error, if any, and the store afterwards.
\<close>

definition runTransaction ::
  "bool \<Rightarrow> (store \<Rightarrow> error + write list) \<Rightarrow> store \<Rightarrow> error option \<times> store" where
  "runTransaction accepted updateFunction s =
     (case updateFunction s of
        Inl e \<Rightarrow> (Some e, s)
      | Inr ws \<Rightarrow>
          if \<not> accepted then (Some StoreRejected, s)
          else (case commit ws s of
                  None \<Rightarrow> (Some StoreRejected, s)
                | Some s' \<Rightarrow> (None, s')))"

section \<open>Chat service\<close>

text \<open>
  \<^verbatim>\<open>createOrGetChat\<close>.  Its three requests (\<open>get\<close>, \<open>delete\<close>, \<open>set\<close>) are separate; each
  may be rejected, which throws.  \<open>now\<close> is the value the server gives
  \<^verbatim>\<open>FieldValue.serverTimestamp()\<close>.
\<close>

definition newChat :: "bool \<Rightarrow> timestamp \<Rightarrow> doc_id \<Rightarrow> string \<Rightarrow> string \<Rightarrow> store \<Rightarrow> (error + chat) \<times> store" where
  "newChat set_ok now chatId userId1 userId2 s =
     (if \<not> set_ok then (Inl StoreRejected, s)
      else (Inr \<lparr>chat_id = chatId, chat_userId1 = userId1, chat_userId2 = userId2,
                 chat_lastMessage = None, chat_lastMessageTime = None,
                 chat_unreadCount1 = 0, chat_unreadCount2 = 0,
                 chat_user1Data = None, chat_user2Data = None\<rparr>,
            s\<lparr>chats := AList.update chatId
                 (Some \<lparr>cd_userId1 = Some userId1, cd_userId2 = Some userId2,
                        cd_lastMessage = Some [], cd_lastMessageTime = Some now,
                        cd_unreadCount1 = Some 0, cd_unreadCount2 = Some 0\<rparr>) (chats s)\<rparr>))"

definition createOrGetChat ::
  "bool \<Rightarrow> bool \<Rightarrow> bool \<Rightarrow> timestamp \<Rightarrow> string \<Rightarrow> string \<Rightarrow> store \<Rightarrow> (error + chat) \<times> store" where
  "createOrGetChat get_ok delete_ok set_ok now userId1 userId2 s =
     (let chatId = getChatId userId1 userId2 in
      if \<not> get_ok then (Inl StoreRejected, s)
      else case getChat s chatId of
        Doc data \<Rightarrow>
          (Inr \<lparr>chat_id = chatId,
                chat_userId1 = or_string (cd_userId1 data) userId1,
                chat_userId2 = or_string (cd_userId2 data) userId2,
                chat_lastMessage = or_undefined (cd_lastMessage data),
                chat_lastMessageTime = cd_lastMessageTime data,
                chat_unreadCount1 = or_zero (cd_unreadCount1 data),
                chat_unreadCount2 = or_zero (cd_unreadCount2 data),
                chat_user1Data = None, chat_user2Data = None\<rparr>, s)
      | Empty \<Rightarrow>
          if \<not> delete_ok then (Inl StoreRejected, s)
          else newChat set_ok now chatId userId1 userId2 (s\<lparr>chats := AList.delete chatId (chats s)\<rparr>)
      | Absent \<Rightarrow> newChat set_ok now chatId userId1 userId2 s)"

text \<open>
  The update function of \<^verbatim>\<open>sendMessage\<close>.  \<open>newId\<close> is the id of the fresh document
  reference \<^verbatim>\<open>messagesRef.doc()\<close>.  \<open>updateData\<close> carries the last message and the
  counter of the side opposite to the sender: the value just read, or \<open>0\<close> in its place,
  plus one.
\<close>

definition sendMessage_updateData :: "timestamp \<Rightarrow> string \<Rightarrow> string \<Rightarrow> chat_doc \<Rightarrow> chat_update" where
  "sendMessage_updateData now senderId txt chatData =
     (let isUser1 = (cd_userId1 chatData = Some senderId);
          updateData = no_update\<lparr>set_lastMessage := Some txt, set_lastMessageTime := Some now\<rparr>
      in if isUser1
         then updateData\<lparr>set_unreadCount2 := Some (plus_one (or_zero (cd_unreadCount2 chatData)))\<rparr>
         else updateData\<lparr>set_unreadCount1 := Some (plus_one (or_zero (cd_unreadCount1 chatData)))\<rparr>)"

definition sendMessage_update ::
  "timestamp \<Rightarrow> doc_id \<Rightarrow> doc_id \<Rightarrow> string \<Rightarrow> string \<Rightarrow> string \<Rightarrow> store \<Rightarrow> error + write list" where
  "sendMessage_update now newId chatId senderId receiverId txt s =
     (case getChat s chatId of
        Absent \<Rightarrow> Inl ChatDoesNotExist
      | Empty \<Rightarrow> Inl ChatDataIsNull
      | Doc chatData \<Rightarrow>
          Inr [SetMessage chatId
                 \<lparr>msg_id = newId, msg_chatId = chatId, msg_senderId = senderId,
                  msg_receiverId = receiverId, msg_text = txt, msg_timestamp = now,
                  msg_read = False\<rparr>,
               UpdateChat chatId (sendMessage_updateData now senderId txt chatData)])"

text \<open>\<^verbatim>\<open>sendMessage\<close>: the transaction; the \<^verbatim>\<open>catch\<close> logs the error and throws it again.\<close>

definition sendMessage ::
  "bool \<Rightarrow> timestamp \<Rightarrow> doc_id \<Rightarrow> doc_id \<Rightarrow> string \<Rightarrow> string \<Rightarrow> string \<Rightarrow> store
     \<Rightarrow> error option \<times> store" where
  "sendMessage accepted now newId chatId senderId receiverId txt s =
     runTransaction accepted (sendMessage_update now newId chatId senderId receiverId txt) s"

text \<open>
  \<^verbatim>\<open>markMessagesAsRead\<close>.  Its update function first runs the query for the unread
  messages addressed to \<open>userId\<close> and buffers one update per message found; then it reads
  the chat document through the transaction and, if it has data, sets the counter of the
  side of \<open>userId\<close> to \<open>0\<close>.  The query is an ordinary read, \<^verbatim>\<open>messagesRef.where(...).get()\<close>,
  not a read of the transaction: the store does not run the update function again when
  the messages change after it.  So the query has a state of its own, \<open>seen\<close>, which is
  the state \<open>s\<close> of the commit only if no other write takes effect in between.
\<close>

definition unreadSnapshot :: "doc_id \<Rightarrow> string \<Rightarrow> store \<Rightarrow> message list" where
  "unreadSnapshot chatId userId seen =
     filter (\<lambda>m. msg_receiverId m = userId \<and> msg_read m = False) (messages seen chatId)"

definition markMessagesAsRead_updateData :: "string \<Rightarrow> chat_doc \<Rightarrow> chat_update" where
  "markMessagesAsRead_updateData userId chatData =
     (let isUser1 = (cd_userId1 chatData = Some userId)
      in if isUser1 then no_update\<lparr>set_unreadCount1 := Some 0\<rparr>
         else no_update\<lparr>set_unreadCount2 := Some 0\<rparr>)"

definition markMessagesAsRead_update ::
  "doc_id \<Rightarrow> string \<Rightarrow> store \<Rightarrow> store \<Rightarrow> error + write list" where
  "markMessagesAsRead_update chatId userId seen s =
     (let marks = map (\<lambda>m. UpdateMessageRead chatId (msg_id m)) (unreadSnapshot chatId userId seen)
      in case getChat s chatId of
           Doc chatData \<Rightarrow>
             Inr (marks @ [UpdateChat chatId (markMessagesAsRead_updateData userId chatData)])
         | _ \<Rightarrow> Inr marks)"

definition markMessagesAsRead ::
  "bool \<Rightarrow> doc_id \<Rightarrow> string \<Rightarrow> store \<Rightarrow> store \<Rightarrow> error option \<times> store" where
  "markMessagesAsRead accepted chatId userId seen s =
     runTransaction accepted (markMessagesAsRead_update chatId userId seen) s"

text \<open>
  A history of the chat service: the calls made against the store, in the order their
  writes take effect.  A call of \<^verbatim>\<open>markMessagesAsRead\<close> comes with the state its query
  saw.
\<close>

datatype service_call =
    CreateOrGetChat bool bool bool timestamp string string
  | SendMessage bool timestamp doc_id doc_id string string string
  | MarkMessagesAsRead bool doc_id string store

fun perform :: "service_call \<Rightarrow> store \<Rightarrow> store" where
  "perform (CreateOrGetChat get_ok delete_ok set_ok now userId1 userId2) s =
     snd (createOrGetChat get_ok delete_ok set_ok now userId1 userId2 s)"
| "perform (SendMessage accepted now newId chatId senderId receiverId txt) s =
     snd (sendMessage accepted now newId chatId senderId receiverId txt s)"
| "perform (MarkMessagesAsRead accepted chatId userId seen) s =
     snd (markMessagesAsRead accepted chatId userId seen s)"

text \<open>Every unread counter of every chat document reads as a non-negative number.\<close>

definition counters_ok :: "store \<Rightarrow> bool" where
  "counters_ok s = (\<forall>c d. getChat s c = Doc d \<longrightarrow>
     0 \<le> or_zero (cd_unreadCount1 d) \<and> 0 \<le> or_zero (cd_unreadCount2 d))"

section \<open>Chat detail screen\<close>

text \<open>The state of \<^verbatim>\<open>ChatDetailScreen\<close>: \<^verbatim>\<open>messages\<close>, \<^verbatim>\<open>inputText\<close> and \<^verbatim>\<open>sending\<close>.\<close>

record chat_screen =
  scr_messages :: "message list"
  scr_inputText :: string
  scr_sending :: bool

text \<open>
  The updater given to \<^verbatim>\<open>setMessages\<close> in the callback of \<^verbatim>\<open>getChatMessages\<close>, with the
  names of its constants.  \<open>prev\<close> is the list the screen shows, \<open>newMessages\<close> the list
  delivered by the subscription.
\<close>

definition optimisticMessages :: "message list \<Rightarrow> message list" where
  "optimisticMessages prev = filter (\<lambda>msg. startsWith (msg_id msg) ''temp-'') prev"

definition realMessages :: "message list \<Rightarrow> message list" where
  "realMessages newMessages = filter (\<lambda>msg. \<not> startsWith (msg_id msg) ''temp-'') newMessages"

text \<open>The test inside \<^verbatim>\<open>realMessages.some\<close>: \<open>realMsg\<close> stands for \<open>optMsg\<close>.\<close>

definition replaces :: "message \<Rightarrow> message \<Rightarrow> bool" where
  "replaces realMsg optMsg =
     (msg_text realMsg = msg_text optMsg \<and>
      msg_senderId realMsg = msg_senderId optMsg \<and>
      \<bar>msg_timestamp realMsg - msg_timestamp optMsg\<bar> < 5000)"

definition replacedOptimisticIds :: "message list \<Rightarrow> message list \<Rightarrow> doc_id list" where
  "replacedOptimisticIds prev newMessages =
     map msg_id
       (filter (\<lambda>optMsg. list_ex (\<lambda>realMsg. replaces realMsg optMsg) (realMessages newMessages))
          (optimisticMessages prev))"

definition remainingOptimistic :: "message list \<Rightarrow> message list \<Rightarrow> message list" where
  "remainingOptimistic prev newMessages =
     filter (\<lambda>msg. msg_id msg \<notin> set (replacedOptimisticIds prev newMessages))
       (optimisticMessages prev)"

text \<open>
  \<^verbatim>\<open>allMessages.sort((a, b) => a.timestamp.getTime() - b.timestamp.getTime())\<close> is a
  stable sort by the time, as \<^const>\<open>sort_key\<close> is.
\<close>

definition reconcileMessages :: "message list \<Rightarrow> message list \<Rightarrow> message list" where
  "reconcileMessages prev newMessages =
     (let allMessages = realMessages newMessages @ remainingOptimistic prev newMessages
      in sort_key msg_timestamp allMessages)"

definition onChatMessages :: "message list \<Rightarrow> chat_screen \<Rightarrow> chat_screen" where
  "onChatMessages newMessages scr =
     scr\<lparr>scr_messages := reconcileMessages (scr_messages scr) newMessages\<rparr>"

text \<open>
  \<^verbatim>\<open>handleSendMessage\<close>.  The guard: nothing is sent for an input that is empty after
  trimming, without a chat or a signed-in user, for the placeholder user \<open>user1\<close>, or
  while a send is under way.
\<close>

definition canSend :: "doc_id \<Rightarrow> string \<Rightarrow> chat_screen \<Rightarrow> bool" where
  "canSend chatId currentUserId scr =
     (\<not> (trim (scr_inputText scr) = [] \<or> chatId = [] \<or> currentUserId = [] \<or>
         currentUserId = ''user1'' \<or> scr_sending scr))"

text \<open>
  \<^verbatim>\<open>`temp-${Date.now()}-${Math.random()}`\<close>: \<open>stamp\<close> and \<open>rnd\<close> are the two numbers as
  they are printed.
\<close>

definition tempId :: "string \<Rightarrow> string \<Rightarrow> doc_id" where
  "tempId stamp rnd = ''temp-'' @ stamp @ ''-'' @ rnd"

text \<open>Up to the call of \<^verbatim>\<open>sendMessage\<close>: the input is cleared and the optimistic message shown.\<close>

definition handleSendMessage_begin ::
  "string \<Rightarrow> string \<Rightarrow> timestamp \<Rightarrow> doc_id \<Rightarrow> string \<Rightarrow> string \<Rightarrow> chat_screen \<Rightarrow> chat_screen" where
  "handleSendMessage_begin stamp rnd clock chatId currentUserId otherUserId scr =
     (let messageText = trim (scr_inputText scr);
          optimisticMessage =
            \<lparr>msg_id = tempId stamp rnd, msg_chatId = chatId, msg_senderId = currentUserId,
             msg_receiverId = otherUserId, msg_text = messageText, msg_timestamp = clock,
             msg_read = False\<rparr>
      in scr\<lparr>scr_inputText := [], scr_sending := True,
              scr_messages := scr_messages scr @ [optimisticMessage]\<rparr>)"

text \<open>The \<^verbatim>\<open>catch\<close> block and the \<^verbatim>\<open>finally\<close> block.\<close>

definition handleSendMessage_catch :: "doc_id \<Rightarrow> string \<Rightarrow> chat_screen \<Rightarrow> chat_screen" where
  "handleSendMessage_catch tmp messageText scr =
     scr\<lparr>scr_messages := filter (\<lambda>msg. msg_id msg \<noteq> tmp) (scr_messages scr),
          scr_inputText := messageText\<rparr>"

definition handleSendMessage_finally :: "chat_screen \<Rightarrow> chat_screen" where
  "handleSendMessage_finally scr = scr\<lparr>scr_sending := False\<rparr>"

text \<open>
  The whole handler on the screen and the store.  While \<^verbatim>\<open>sendMessage\<close> is awaited
  other handlers run (the message subscription delivers, the user types): \<open>meanwhile\<close> is
  what they do to the screen before the result arrives.  \<^verbatim>\<open>sendNotificationToReceiver\<close>
  only logs and never throws.
\<close>

definition handleSendMessage ::
  "bool \<Rightarrow> timestamp \<Rightarrow> doc_id \<Rightarrow> string \<Rightarrow> string \<Rightarrow> timestamp \<Rightarrow> (chat_screen \<Rightarrow> chat_screen) \<Rightarrow>
   doc_id \<Rightarrow> string \<Rightarrow> string \<Rightarrow> chat_screen \<times> store \<Rightarrow> chat_screen \<times> store" where
  "handleSendMessage accepted now newId stamp rnd clock meanwhile chatId currentUserId otherUserId st =
     (let scr = fst st; s = snd st in
      if \<not> canSend chatId currentUserId scr then (scr, s)
      else
        let messageText = trim (scr_inputText scr);
            scr1 = meanwhile (handleSendMessage_begin stamp rnd clock chatId currentUserId otherUserId scr)
        in case sendMessage accepted now newId chatId currentUserId otherUserId messageText s of
             (None, s') \<Rightarrow> (handleSendMessage_finally scr1, s')
           | (Some e, s') \<Rightarrow>
               (handleSendMessage_finally
                  (handleSendMessage_catch (tempId stamp rnd) messageText scr1), s'))"

section \<open>Chat list\<close>

text \<open>The chat documents that have data, and the two queries of \<^verbatim>\<open>processChats\<close>.\<close>

fun chatDocs :: "(doc_id \<times> chat_doc option) list \<Rightarrow> (doc_id \<times> chat_doc) list" where
  "chatDocs [] = []"
| "chatDocs ((i, None) # rest) = chatDocs rest"
| "chatDocs ((i, Some d) # rest) = (i, d) # chatDocs rest"

definition whereUserId1 :: "string \<Rightarrow> store \<Rightarrow> (doc_id \<times> chat_doc) list" where
  "whereUserId1 userId s = filter (\<lambda>(i, d). cd_userId1 d = Some userId) (chatDocs (chats s))"

definition whereUserId2 :: "string \<Rightarrow> store \<Rightarrow> (doc_id \<times> chat_doc) list" where
  "whereUserId2 userId s = filter (\<lambda>(i, d). cd_userId2 d = Some userId) (chatDocs (chats s))"

text \<open>The object pushed for each document of a snapshot.\<close>

definition toChat :: "doc_id \<times> chat_doc \<Rightarrow> chat" where
  "toChat doc =
     (let data = snd doc in
      \<lparr>chat_id = fst doc,
       chat_userId1 = or_string (cd_userId1 data) [],
       chat_userId2 = or_string (cd_userId2 data) [],
       chat_lastMessage = or_undefined (cd_lastMessage data),
       chat_lastMessageTime = cd_lastMessageTime data,
       chat_unreadCount1 = or_zero (cd_unreadCount1 data),
       chat_unreadCount2 = or_zero (cd_unreadCount2 data),
       chat_user1Data = None, chat_user2Data = None\<rparr>)"

text \<open>
  \<^verbatim>\<open>Array.from(new Map(allChats.map(chat => [chat.id, chat])).values())\<close>.  A JavaScript
  \<^verbatim>\<open>Map\<close> keeps its keys in the order of their first insertion and \<^verbatim>\<open>set\<close> replaces the
  value of a key that is present, which is what \<^const>\<open>AList.update\<close> does.
\<close>

definition uniqueChats :: "chat list \<Rightarrow> chat list" where
  "uniqueChats allChats = map snd (fold (\<lambda>chat m. AList.update (chat_id chat) chat m) allChats [])"

text \<open>The data of the other participant, looked up in \<^verbatim>\<open>users\<close>.\<close>

definition withUserData :: "string \<Rightarrow> store \<Rightarrow> chat \<Rightarrow> chat" where
  "withUserData userId s c =
     (let otherUserId = (if chat_userId1 c = userId then chat_userId2 c else chat_userId1 c);
          userData = map_of (users s) otherUserId
      in c\<lparr>chat_user1Data := (if chat_userId1 c = userId then None else userData),
            chat_user2Data := (if chat_userId2 c = userId then None else userData)\<rparr>)"

text \<open>
  \<^verbatim>\<open>processChats\<close>, which \<^verbatim>\<open>getUserChats\<close> runs at once and again whenever one of its two
  subscriptions fires.  The result is the list given to the callback; when a request is
  rejected (\<open>online\<close> is false) the \<^verbatim>\<open>catch\<close> logs the error and the callback is not called.
  The sort is stable and puts the newest last message first, a chat without one counting
  as time \<open>0\<close>.
\<close>

definition processChats :: "bool \<Rightarrow> string \<Rightarrow> store \<Rightarrow> chat list option" where
  "processChats online userId s =
     (if \<not> online then None
      else
        let snapshot1 = whereUserId1 userId s;
            snapshot2 = whereUserId2 userId s;
            allChats = map toChat snapshot1 @ map toChat snapshot2;
            chatsWithUserData = map (withUserData userId s) (uniqueChats allChats)
        in Some (sort_key (\<lambda>c. - or_zero (chat_lastMessageTime c)) chatsWithUserData))"

section \<open>Like service and match service\<close>

text \<open>
  \<^verbatim>\<open>likesCollection.add\<close> and \<^verbatim>\<open>matchesCollection.add\<close> create a document under an id the
  store generates, \<open>newId\<close>; \<open>now\<close> is the server time.  A rejected request throws and
  nothing is written.
\<close>

definition saveLike ::
  "bool \<Rightarrow> timestamp \<Rightarrow> doc_id \<Rightarrow> string \<Rightarrow> string \<Rightarrow> string \<Rightarrow> store \<Rightarrow> error option \<times> store" where
  "saveLike accepted now newId likerUserId likedAnimalId ownerId s =
     (if \<not> accepted then (Some StoreRejected, s)
      else (None, s\<lparr>likes := AList.update newId
              \<lparr>ld_likerUserId = Some likerUserId, ld_likedAnimalId = Some likedAnimalId,
               ld_ownerId = Some ownerId, ld_createdAt = Some now\<rparr> (likes s)\<rparr>))"

text \<open>
  The object \<^verbatim>\<open>saveMatch\<close> passes to \<^verbatim>\<open>add\<close>.  The interface \<^verbatim>\<open>Match\<close> requires both
  animals, but a match object built from a stored document (\<^const>\<open>match_animal1\<close> is
  \<^verbatim>\<open>data.animal1\<close>) may lack one, and then the field of the object is \<^verbatim>\<open>undefined\<close>.
  \<^verbatim>\<open>add\<close> refuses an object with an undefined field: it throws while it encodes the
  object, before any request is made, and nothing is written.
\<close>

definition matchFields :: "timestamp \<Rightarrow> match \<Rightarrow> match_doc" where
  "matchFields now matchData =
     \<lparr>md_userId1 = Some (match_userId1 matchData),
      md_userId2 = Some (match_userId2 matchData),
      md_animal1Id = Some (match_animal1Id matchData),
      md_animal1 = match_animal1 matchData,
      md_animal2Id = Some (match_animal2Id matchData),
      md_animal2 = match_animal2 matchData,
      md_createdAt = Some now\<rparr>"

definition saveMatch :: "bool \<Rightarrow> timestamp \<Rightarrow> doc_id \<Rightarrow> match \<Rightarrow> store \<Rightarrow> error option \<times> store" where
  "saveMatch accepted now newId matchData s =
     (if match_animal1 matchData = None \<or> match_animal2 matchData = None
      then (Some UnsupportedFieldValue, s)
      else if \<not> accepted then (Some StoreRejected, s)
      else (None, s\<lparr>matches := AList.update newId (matchFields now matchData) (matches s)\<rparr>))"

text \<open>The match documents of the unordered pair of two profiles.\<close>

definition matchEdges :: "string \<Rightarrow> string \<Rightarrow> store \<Rightarrow> (doc_id \<times> match_doc) list" where
  "matchEdges u v s =
     filter (\<lambda>(i, d). (md_userId1 d = Some u \<and> md_userId2 d = Some v) \<or>
                       (md_userId1 d = Some v \<and> md_userId2 d = Some u)) (matches s)"

text \<open>The result of \<^verbatim>\<open>checkMutualLike\<close>.\<close>

record mutual_like =
  isMatch :: bool
  matchedAnimalId :: "string option"

text \<open>\<^verbatim>\<open>userAnimalIds.includes(likeData.likedAnimalId)\<close>, the field possibly missing.\<close>

definition list_includes :: "string list \<Rightarrow> string option \<Rightarrow> bool" where
  "list_includes ids x = (case x of None \<Rightarrow> False | Some a \<Rightarrow> a \<in> set ids)"

text \<open>
  The loop of \<^verbatim>\<open>checkMutualLike\<close> over the likes of the owner: the first like whose
  \<open>ownerId\<close> is the liker, or whose animal is in the liker's list, is a match.
\<close>

fun ownerLikesLoop :: "string \<Rightarrow> string list \<Rightarrow> like_doc list \<Rightarrow> mutual_like" where
  "ownerLikesLoop likerUserId userAnimalIds [] = \<lparr>isMatch = False, matchedAnimalId = None\<rparr>"
| "ownerLikesLoop likerUserId userAnimalIds (likeData # rest) =
     (if ld_ownerId likeData = Some likerUserId
      then \<lparr>isMatch = True, matchedAnimalId = ld_likedAnimalId likeData\<rparr>
      else if list_includes userAnimalIds (ld_likedAnimalId likeData)
      then \<lparr>isMatch = True, matchedAnimalId = ld_likedAnimalId likeData\<rparr>
      else ownerLikesLoop likerUserId userAnimalIds rest)"

text \<open>
  \<^verbatim>\<open>checkMutualLike\<close>.  When the query is rejected (\<open>online\<close> is false) the \<^verbatim>\<open>catch\<close>
  returns \<open>isMatch = false\<close>.
\<close>

definition checkMutualLike :: "bool \<Rightarrow> string \<Rightarrow> string \<Rightarrow> animal list \<Rightarrow> store \<Rightarrow> mutual_like" where
  "checkMutualLike online likerUserId ownerId userAnimals s =
     (if \<not> online then \<lparr>isMatch = False, matchedAnimalId = None\<rparr>
      else
        let ownerLikes = filter (\<lambda>(i, d). ld_likerUserId d = Some ownerId) (likes s);
            userAnimalIds = map animal_id userAnimals
        in ownerLikesLoop likerUserId userAnimalIds (map snd ownerLikes))"

section \<open>Real-time matches\<close>

text \<open>
  A query snapshot as \<^verbatim>\<open>handleSnapshot\<close> reads it: its documents (\<^verbatim>\<open>snapshot.forEach\<close>)
  and its changes since the snapshot before (\<^verbatim>\<open>snapshot.docChanges()\<close>).
\<close>

datatype change_type = Added | Modified | Removed

record doc_change =
  change_type :: change_type
  change_id :: doc_id
  change_data :: match_doc

record query_snapshot =
  docs :: "(doc_id \<times> match_doc) list"
  docChanges :: "doc_change list"

text \<open>
  The object built for a document, in all three places.  A document without
  \<open>createdAt\<close> (a server time still pending) gets the time of the clock, \<^verbatim>\<open>new Date()\<close>,
  read when the object is built: \<open>now\<close> is that reading.
\<close>

definition toMatch :: "timestamp \<Rightarrow> doc_id \<Rightarrow> match_doc \<Rightarrow> match" where
  "toMatch now i data =
     \<lparr>match_id = i,
      match_userId1 = or_string (md_userId1 data) [],
      match_userId2 = or_string (md_userId2 data) [],
      match_animal1Id = or_string (md_animal1Id data) [],
      match_animal1 = md_animal1 data,
      match_animal2Id = or_string (md_animal2Id data) [],
      match_animal2 = md_animal2 data,
      match_timestamp = (case md_createdAt data of None \<Rightarrow> now | Some t \<Rightarrow> t)\<rparr>"

text \<open>\<^verbatim>\<open>processMatches\<close>: the values of the map, newest first (a stable sort).\<close>

definition processMatches :: "(doc_id \<times> match) list \<Rightarrow> match list" where
  "processMatches matchesMap = sort_key (\<lambda>m. - match_timestamp m) (map snd matchesMap)"

datatype query_name = UserId1 | UserId2

text \<open>
  \<^verbatim>\<open>handleSnapshot\<close> on the map \<^verbatim>\<open>matchesMap\<close>, a JavaScript \<^verbatim>\<open>Map\<close> kept as the list of
  its entries.  On the first load of a query every document of the snapshot is set, and
  then every entry of the role of the query whose id is not in the snapshot is deleted.
  Afterwards the changes are applied one by one.  The clock is read anew for each
  document and each change: \<open>clock k\<close> is the reading of this run of the handler at the
  document, or the change, in place \<open>k\<close> of the snapshot.
\<close>

definition staleEntry :: "string \<Rightarrow> query_name \<Rightarrow> doc_id set \<Rightarrow> doc_id \<times> match \<Rightarrow> bool" where
  "staleEntry userId queryName currentDocIds entry =
     (let i = fst entry; m = snd entry in
      if queryName = UserId1 \<and> match_userId1 m = userId \<and> i \<notin> currentDocIds then True
      else if queryName = UserId2 \<and> match_userId2 m = userId \<and> i \<notin> currentDocIds then True
      else False)"

definition applyChange :: "timestamp \<Rightarrow> doc_change \<Rightarrow> (doc_id \<times> match) list \<Rightarrow> (doc_id \<times> match) list" where
  "applyChange now change matchesMap =
     (if change_type change = Removed then AList.delete (change_id change) matchesMap
      else AList.update (change_id change)
             (toMatch now (change_id change) (change_data change)) matchesMap)"

definition handleSnapshot ::
  "string \<Rightarrow> (nat \<Rightarrow> timestamp) \<Rightarrow> query_snapshot \<Rightarrow> bool \<Rightarrow> query_name \<Rightarrow> (doc_id \<times> match) list
     \<Rightarrow> (doc_id \<times> match) list" where
  "handleSnapshot userId clock snapshot isFirstLoad queryName matchesMap =
     (if isFirstLoad then
        let currentDocIds = set (map fst (docs snapshot));
            loaded = fold (\<lambda>(k, doc) m. AList.update (fst doc) (toMatch (clock k) (fst doc) (snd doc)) m)
                       (enumerate 0 (docs snapshot)) matchesMap
        in filter (\<lambda>entry. \<not> staleEntry userId queryName currentDocIds entry) loaded
      else fold (\<lambda>(k, change) m. applyChange (clock k) change m)
             (enumerate 0 (docChanges snapshot)) matchesMap)"

text \<open>
  The state of one call of \<^verbatim>\<open>getUserMatchesRealtime\<close>: the map, the two first-load flags
  and the list last given to the callback.
\<close>

record realtime_matches =
  matchesMap :: "(doc_id \<times> match) list"
  isFirstLoad1 :: bool
  isFirstLoad2 :: bool
  delivered :: "match list"

definition getUserMatchesRealtime :: realtime_matches where
  "getUserMatchesRealtime =
     \<lparr>matchesMap = [], isFirstLoad1 = True, isFirstLoad2 = True, delivered = []\<rparr>"

text \<open>
  What the two subscriptions deliver: a snapshot of one of the queries, or an error, on
  which the callback gets the empty list.  The handler of an event runs with the clock of
  the moment, \<open>clock\<close>.
\<close>

datatype event = Snapshot query_name query_snapshot | ListenError query_name

fun onEvent :: "string \<Rightarrow> (nat \<Rightarrow> timestamp) \<Rightarrow> event \<Rightarrow> realtime_matches \<Rightarrow> realtime_matches" where
  "onEvent userId clock (Snapshot UserId1 snapshot) st =
     (let m = handleSnapshot userId clock snapshot (isFirstLoad1 st) UserId1 (matchesMap st)
      in st\<lparr>matchesMap := m, delivered := processMatches m, isFirstLoad1 := False\<rparr>)"
| "onEvent userId clock (Snapshot UserId2 snapshot) st =
     (let m = handleSnapshot userId clock snapshot (isFirstLoad2 st) UserId2 (matchesMap st)
      in st\<lparr>matchesMap := m, delivered := processMatches m, isFirstLoad2 := False\<rparr>)"
| "onEvent userId clock (ListenError queryName) st = st\<lparr>delivered := []\<rparr>"

text \<open>
  A sequence of events handled one after the other.  The clock goes on while they are:
  \<open>clock n k\<close> is its reading in the run of the handler for the event in place \<open>n\<close> of
  the sequence, at the document in place \<open>k\<close> of the snapshot.  In \<open>events @ events\<close> the
  second copy of an event is handled at readings of its own.
\<close>

definition replay ::
  "string \<Rightarrow> (nat \<Rightarrow> nat \<Rightarrow> timestamp) \<Rightarrow> event list \<Rightarrow> realtime_matches \<Rightarrow> realtime_matches" where
  "replay userId clock events st =
     fold (\<lambda>(n, ev) st. onEvent userId (clock n) ev st) (enumerate 0 events) st"

text \<open>
  The copy of \<^verbatim>\<open>getUserMatchesRealtime\<close> in \<^verbatim>\<open>src/services/matchService.ts\<close> has no
  first-load flags and no \<^verbatim>\<open>handleSnapshot\<close>: each of its two snapshot handlers sets every
  document of the snapshot and deletes nothing.  Its state is the map and the list last
  given to the callback.
\<close>

definition setAll ::
  "(nat \<Rightarrow> timestamp) \<Rightarrow> query_snapshot \<Rightarrow> (doc_id \<times> match) list \<Rightarrow> (doc_id \<times> match) list" where
  "setAll clock snapshot entries =
     fold (\<lambda>(k, doc) m. AList.update (fst doc) (toMatch (clock k) (fst doc) (snd doc)) m)
       (enumerate 0 (docs snapshot)) entries"

fun onEvent_plain ::
  "(nat \<Rightarrow> timestamp) \<Rightarrow> event \<Rightarrow> (doc_id \<times> match) list \<times> match list
     \<Rightarrow> (doc_id \<times> match) list \<times> match list" where
  "onEvent_plain clock (Snapshot queryName snapshot) st =
     (let m = setAll clock snapshot (fst st) in (m, processMatches m))"
| "onEvent_plain clock (ListenError queryName) st = (fst st, [])"

definition replay_plain ::
  "(nat \<Rightarrow> nat \<Rightarrow> timestamp) \<Rightarrow> event list \<Rightarrow> (doc_id \<times> match) list \<times> match list
     \<Rightarrow> (doc_id \<times> match) list \<times> match list" where
  "replay_plain clock events st =
     fold (\<lambda>(n, ev) st. onEvent_plain (clock n) ev st) (enumerate 0 events) st"

text \<open>
  Three properties of what the store delivers.  A first snapshot lists each of its
  documents as an added change.  A document delivered for one of the two queries does not
  satisfy the other: read as \<^const>\<open>toMatch\<close> reads it, its other participant is not the
  profile itself.  A document has its \<open>createdAt\<close>: the server time is no longer pending.
\<close>

definition allAdded :: "(doc_id \<times> match_doc) list \<Rightarrow> doc_change list" where
  "allAdded ds = map (\<lambda>doc. \<lparr>change_type = Added, change_id = fst doc, change_data = snd doc\<rparr>) ds"

fun firstSnapshotsListed :: "bool \<Rightarrow> bool \<Rightarrow> event list \<Rightarrow> bool" where
  "firstSnapshotsListed first1 first2 [] = True"
| "firstSnapshotsListed first1 first2 (Snapshot UserId1 snapshot # events) =
     ((if first1 then docChanges snapshot = allAdded (docs snapshot) else True) \<and>
      firstSnapshotsListed False first2 events)"
| "firstSnapshotsListed first1 first2 (Snapshot UserId2 snapshot # events) =
     ((if first2 then docChanges snapshot = allAdded (docs snapshot) else True) \<and>
      firstSnapshotsListed first1 False events)"
| "firstSnapshotsListed first1 first2 (ListenError queryName # events) =
     firstSnapshotsListed first1 first2 events"

definition otherParticipant :: "query_name \<Rightarrow> match_doc \<Rightarrow> string" where
  "otherParticipant queryName data =
     (case queryName of
        UserId1 \<Rightarrow> or_string (md_userId2 data) []
      | UserId2 \<Rightarrow> or_string (md_userId1 data) [])"

fun oneRole :: "string \<Rightarrow> event \<Rightarrow> bool" where
  "oneRole userId (Snapshot queryName snapshot) =
     (list_all (\<lambda>doc. otherParticipant queryName (snd doc) \<noteq> userId) (docs snapshot) \<and>
      list_all (\<lambda>change. change_type change = Removed \<or>
                  otherParticipant queryName (change_data change) \<noteq> userId)
        (docChanges snapshot))"
| "oneRole userId (ListenError queryName) = True"

fun withCreatedAt :: "event \<Rightarrow> bool" where
  "withCreatedAt (Snapshot queryName snapshot) =
     (list_all (\<lambda>doc. md_createdAt (snd doc) \<noteq> None) (docs snapshot) \<and>
      list_all (\<lambda>change. change_type change = Removed \<or> md_createdAt (change_data change) \<noteq> None)
        (docChanges snapshot))"
| "withCreatedAt (ListenError queryName) = True"

text \<open>
  A match and a map with the times left out, to compare maps in everything but the times
  of their matches.
\<close>

definition withoutTime :: "match \<Rightarrow> match" where
  "withoutTime m = m\<lparr>match_timestamp := 0\<rparr>"

definition untimed :: "(doc_id \<times> match) list \<Rightarrow> (doc_id \<times> match) list" where
  "untimed entries = map (\<lambda>(k, m). (k, withoutTime m)) entries"

text \<open>
  The map operations an event amounts to: a key with the value to set, or with \<open>None\<close> to
  delete it.  \<open>changeOps\<close> are those of the changes of a snapshot, \<open>setOps\<close> those that set
  each document of a snapshot.  \<open>replay_at\<close> and \<open>replay_plain_at\<close> handle a sequence of
  events with the same readings of the clock in every run.
\<close>

definition applyOps ::
  "(doc_id \<times> match option) list \<Rightarrow> (doc_id \<times> match) list \<Rightarrow> (doc_id \<times> match) list" where
  "applyOps ops entries =
     fold (\<lambda>op m. case snd op of None \<Rightarrow> AList.delete (fst op) m
                               | Some v \<Rightarrow> AList.update (fst op) v m) ops entries"

definition changeOp :: "(nat \<Rightarrow> timestamp) \<Rightarrow> nat \<times> doc_change \<Rightarrow> doc_id \<times> match option" where
  "changeOp clock kc =
     (change_id (snd kc),
      if change_type (snd kc) = Removed then None
      else Some (toMatch (clock (fst kc)) (change_id (snd kc)) (change_data (snd kc))))"

fun changeOps :: "(nat \<Rightarrow> timestamp) \<Rightarrow> event \<Rightarrow> (doc_id \<times> match option) list" where
  "changeOps clock (Snapshot queryName snapshot) =
     map (changeOp clock) (enumerate 0 (docChanges snapshot))"
| "changeOps clock (ListenError queryName) = []"

fun setOps :: "(nat \<Rightarrow> timestamp) \<Rightarrow> event \<Rightarrow> (doc_id \<times> match option) list" where
  "setOps clock (Snapshot queryName snapshot) =
     map (\<lambda>(k, doc). (fst doc, Some (toMatch (clock k) (fst doc) (snd doc))))
       (enumerate 0 (docs snapshot))"
| "setOps clock (ListenError queryName) = []"

definition replay_at ::
  "string \<Rightarrow> (nat \<Rightarrow> timestamp) \<Rightarrow> event list \<Rightarrow> realtime_matches \<Rightarrow> realtime_matches" where
  "replay_at userId clock events st = fold (onEvent userId clock) events st"

definition replay_plain_at ::
  "(nat \<Rightarrow> timestamp) \<Rightarrow> event list \<Rightarrow> (doc_id \<times> match) list \<times> match list
     \<Rightarrow> (doc_id \<times> match) list \<times> match list" where
  "replay_plain_at clock events st = fold (onEvent_plain clock) events st"

definition untimedOps :: "(doc_id \<times> match option) list \<Rightarrow> (doc_id \<times> match option) list" where
  "untimedOps ops = map (\<lambda>(k, ov). (k, map_option withoutTime ov)) ops"

section \<open>Sample data\<close>

text \<open>
  The thread of the profiles \<open>a\<close> and \<open>b\<close> as \<^verbatim>\<open>createOrGetChat\<close> leaves it at time \<open>0\<close>,
  the same thread after \<open>a\<close> has sent \<open>hi\<close> at time \<open>1000\<close>, after \<open>b\<close> has then
  read it, and, instead, after \<open>b\<close> has answered \<open>yo\<close> at time \<open>2000\<close> without reading.
\<close>

definition chat_ab :: chat_doc where
  "chat_ab = \<lparr>cd_userId1 = Some ''a'', cd_userId2 = Some ''b'', cd_lastMessage = Some [],
     cd_lastMessageTime = Some 0, cd_unreadCount1 = Some 0, cd_unreadCount2 = Some 0\<rparr>"

definition hi_ab :: message where
  "hi_ab = \<lparr>msg_id = ''m1'', msg_chatId = ''a_b'', msg_senderId = ''a'', msg_receiverId = ''b'',
     msg_text = ''hi'', msg_timestamp = 1000, msg_read = False\<rparr>"

definition empty_store :: store where
  "empty_store = \<lparr>chats = [], messages = (\<lambda>_. []), users = [], matches = [], likes = []\<rparr>"

definition store_ab :: store where
  "store_ab = empty_store\<lparr>chats := [(''a_b'', Some chat_ab)]\<rparr>"

definition store_ab_hi :: store where
  "store_ab_hi = empty_store\<lparr>
     chats := [(''a_b'', Some (chat_ab\<lparr>cd_lastMessage := Some ''hi'',
                 cd_lastMessageTime := Some 1000, cd_unreadCount2 := Some 1\<rparr>))],
     messages := (\<lambda>_. [])(''a_b'' := [hi_ab])\<rparr>"

definition store_ab_read :: store where
  "store_ab_read = empty_store\<lparr>
     chats := [(''a_b'', Some (chat_ab\<lparr>cd_lastMessage := Some ''hi'',
                 cd_lastMessageTime := Some 1000\<rparr>))],
     messages := (\<lambda>_. [])(''a_b'' := [hi_ab\<lparr>msg_read := True\<rparr>])\<rparr>"

definition yo_ba :: message where
  "yo_ba = \<lparr>msg_id = ''m2'', msg_chatId = ''a_b'', msg_senderId = ''b'', msg_receiverId = ''a'',
     msg_text = ''yo'', msg_timestamp = 2000, msg_read = False\<rparr>"

definition store_ab_yo :: store where
  "store_ab_yo = empty_store\<lparr>
     chats := [(''a_b'', Some (chat_ab\<lparr>cd_lastMessage := Some ''yo'',
                 cd_lastMessageTime := Some 2000, cd_unreadCount1 := Some 1,
                 cd_unreadCount2 := Some 1\<rparr>))],
     messages := (\<lambda>_. [])(''a_b'' := [hi_ab, yo_ba])\<rparr>"

text \<open>
  A second message of \<open>a\<close>, sent at time \<open>2000\<close> while \<open>hi\<close> is unread; the thread with both
  messages unread; and the thread in which \<open>hi\<close> is read, the second message is not, and
  the counter of \<open>b\<close> is \<open>0\<close>.
\<close>

definition again_ab :: message where
  "again_ab = hi_ab\<lparr>msg_id := ''m2'', msg_text := ''again'', msg_timestamp := 2000\<rparr>"

definition store_ab_again :: store where
  "store_ab_again = empty_store\<lparr>
     chats := [(''a_b'', Some (chat_ab\<lparr>cd_lastMessage := Some ''again'',
                 cd_lastMessageTime := Some 2000, cd_unreadCount2 := Some 2\<rparr>))],
     messages := (\<lambda>_. [])(''a_b'' := [hi_ab, again_ab])\<rparr>"

definition store_ab_raced :: store where
  "store_ab_raced = empty_store\<lparr>
     chats := [(''a_b'', Some (chat_ab\<lparr>cd_lastMessage := Some ''again'',
                 cd_lastMessageTime := Some 2000, cd_unreadCount2 := Some 0\<rparr>))],
     messages := (\<lambda>_. [])(''a_b'' := [hi_ab\<lparr>msg_read := True\<rparr>, again_ab])\<rparr>"




text \<open>
  The optimistic copy of \<open>hi\<close>, shown 200 ms before the confirmed message, a second
  optimistic message that has no confirmation yet, and a screen with \<open>hi\<close> typed between
  two spaces.
\<close>

definition pending_hi :: message where
  "pending_hi = hi_ab\<lparr>msg_id := ''temp-800-0.5'', msg_timestamp := 800\<rparr>"

definition pending_yo :: message where
  "pending_yo = hi_ab\<lparr>msg_id := ''temp-900-0.25'', msg_text := ''yo'', msg_timestamp := 900\<rparr>"

definition typing_hi :: chat_screen where
  "typing_hi = \<lparr>scr_messages = [], scr_inputText = '' hi '', scr_sending = False\<rparr>"

text \<open>
  A store in which \<open>a\<close> is \<open>userId1\<close> of the threads with \<open>b\<close> and \<open>c\<close> and \<open>userId2\<close> of
  the thread that \<open>d\<close> opened; \<open>b\<close> and \<open>c\<close> have a thread of their own.
\<close>

definition store_three :: store where
  "store_three = empty_store\<lparr>chats :=
     [(''a_b'', Some (chat_ab\<lparr>cd_lastMessage := Some ''hi'', cd_lastMessageTime := Some 1000\<rparr>)),
      (''b_c'', Some (chat_ab\<lparr>cd_userId1 := Some ''b'', cd_userId2 := Some ''c''\<rparr>)),
      (''a_c'', Some (chat_ab\<lparr>cd_userId2 := Some ''c''\<rparr>)),
      (''a_d'', Some (chat_ab\<lparr>cd_userId1 := Some ''d'', cd_userId2 := Some ''a'',
                  cd_lastMessage := Some ''yo'', cd_lastMessageTime := Some 2000\<rparr>))]\<rparr>"

text \<open>
  Two profiles that have liked each other's pets, \<open>b\<close> first, the two pets, and the
  match as the device of each of them would save it.
\<close>

definition store_liked :: store where
  "store_liked = empty_store\<lparr>likes :=
     [(''l1'', \<lparr>ld_likerUserId = Some ''b'', ld_likedAnimalId = Some ''pa'',
               ld_ownerId = Some ''a'', ld_createdAt = Some 1\<rparr>),
      (''l2'', \<lparr>ld_likerUserId = Some ''a'', ld_likedAnimalId = Some ''pb'',
               ld_ownerId = Some ''b'', ld_createdAt = Some 2\<rparr>)]\<rparr>"

definition pet_a :: animal where
  "pet_a = \<lparr>animal_id = ''pa'', animal_name = ''Rex'', animal_type = ''dog'', animal_age = 3,
     animal_breed = ''collie'', animal_image = ''rex.png'', animal_bio = ''likes walks'',
     animal_ownerId = ''a''\<rparr>"

definition pet_b :: animal where
  "pet_b = \<lparr>animal_id = ''pb'', animal_name = ''Tom'', animal_type = ''cat'', animal_age = 2,
     animal_breed = ''tabby'', animal_image = ''tom.png'', animal_bio = ''likes naps'',
     animal_ownerId = ''b''\<rparr>"

definition match_ab :: match where
  "match_ab = \<lparr>match_id = ''local'', match_userId1 = ''a'', match_userId2 = ''b'',
     match_animal1Id = ''pa'', match_animal1 = Some pet_a,
     match_animal2Id = ''pb'', match_animal2 = Some pet_b, match_timestamp = 3\<rparr>"

definition match_ba :: match where
  "match_ba = \<lparr>match_id = ''local'', match_userId1 = ''b'', match_userId2 = ''a'',
     match_animal1Id = ''pb'', match_animal1 = Some pet_b,
     match_animal2Id = ''pa'', match_animal2 = Some pet_a, match_timestamp = 3\<rparr>"

text \<open>
  What the subscriptions of \<open>a\<close> deliver: the match with \<open>b\<close> under the first query and
  the match with \<open>c\<close> under the second, then the removal of the first match; for a match
  of \<open>a\<close> with itself, a first snapshot of the first query that holds it followed by a
  first snapshot of the second query that does not; and the match with \<open>b\<close> while its
  server time is pending.  The clock \<open>ticks\<close> reads \<open>100\<close> in the first run of a handler
  and \<open>10\<close> more in each further run.
\<close>

definition match_doc_ab :: match_doc where
  "match_doc_ab = matchFields 5 match_ab"

definition match_doc_ca :: match_doc where
  "match_doc_ca = matchFields 6 (match_ab\<lparr>match_userId1 := ''c'', match_userId2 := ''a''\<rparr>)"

definition match_doc_aa :: match_doc where
  "match_doc_aa = matchFields 7 (match_ab\<lparr>match_userId2 := ''a''\<rparr>)"

definition match_doc_pending :: match_doc where
  "match_doc_pending = match_doc_ab\<lparr>md_createdAt := None\<rparr>"

definition events_a :: "event list" where
  "events_a =
     [Snapshot UserId1 \<lparr>docs = [(''m1'', match_doc_ab)],
                        docChanges = allAdded [(''m1'', match_doc_ab)]\<rparr>,
      Snapshot UserId2 \<lparr>docs = [(''m2'', match_doc_ca)],
                        docChanges = allAdded [(''m2'', match_doc_ca)]\<rparr>,
      Snapshot UserId1 \<lparr>docs = [],
                        docChanges = [\<lparr>change_type = Removed, change_id = ''m1'',
                                       change_data = match_doc_ab\<rparr>]\<rparr>]"

definition events_self :: "event list" where
  "events_self =
     [Snapshot UserId1 \<lparr>docs = [(''m3'', match_doc_aa)],
                        docChanges = allAdded [(''m3'', match_doc_aa)]\<rparr>,
      Snapshot UserId2 \<lparr>docs = [], docChanges = []\<rparr>]"

definition events_pending :: "event list" where
  "events_pending =
     [Snapshot UserId1 \<lparr>docs = [(''m1'', match_doc_pending)],
                        docChanges = allAdded [(''m1'', match_doc_pending)]\<rparr>]"

definition ticks :: "nat \<Rightarrow> nat \<Rightarrow> timestamp" where
  "ticks n k = 100 + 10 * int n"

section \<open>Properties of the chat thread identifier\<close>

text \<open>
  C2.  The chat thread id is symmetric in its two arguments, and it is the two ids in
  lexicographic order joined with the character \<open>_\<close>: the smaller id, the underscore,
  the larger id.
\<close>

theorem getChatId_symmetric_sorted_joined:
  "getChatId a b = getChatId b a \<and>
   getChatId a b = min a b @ ''_'' @ max a b \<and>
   min a b \<le> max a b"
  by (auto simp: getChatId_def min_def max_def)

theorem getChatId_symmetric_sorted_joined_witness:
  "getChatId ''bob'' ''alice'' = ''alice_bob'' \<and> getChatId ''alice'' ''bob'' = ''alice_bob''"
  using getChatId_symmetric_sorted_joined [of "''bob''" "''alice''"]
  by (simp add: getChatId_def)

section \<open>Properties of the unread counter ledger\<close>

subsection \<open>Reading and committing\<close>

lemma getChat_chats_update:
  "getChat (chats_update (\<lambda>_. AList.update c v al) t) c' =
     (if c' = c then (case v of None \<Rightarrow> Empty | Some d \<Rightarrow> Doc d)
      else getChat (chats_update (\<lambda>_. al) t) c')"
  by (simp add: getChat_def update_conv' split: option.splits)

lemma getChat_chats_delete:
  "getChat (chats_update (\<lambda>_. AList.delete c al) t) c' =
     (if c' = c then Absent else getChat (chats_update (\<lambda>_. al) t) c')"
  by (simp add: getChat_def delete_conv' split: option.splits)

lemma getChat_chats_same: "getChat (chats_update (\<lambda>_. chats s) t) c = getChat s c"
  by (simp add: getChat_def)

lemma getChat_messages_update: "getChat (messages_update f s) c = getChat s c"
  by (simp add: getChat_def)

lemmas getChat_simps =
  getChat_chats_update getChat_chats_delete getChat_chats_same getChat_messages_update

lemma commit_append:
  "commit (ws @ vs) s = (case commit ws s of None \<Rightarrow> None | Some s' \<Rightarrow> commit vs s')"
  by (induction ws arbitrary: s) (auto split: option.splits)

lemma runTransaction_error_unchanged:
  "runTransaction accepted f s = (Some e, s') \<Longrightarrow> s' = s"
  by (auto simp: runTransaction_def split: sum.splits if_splits option.splits)

subsection \<open>Sending\<close>


lemma plus_one_numerals [simp]: "plus_one 0 = 1" "plus_one 1 = 2"
  by (simp_all add: plus_one_def)

lemma plus_one_nonneg: "0 \<le> c \<Longrightarrow> 0 \<le> plus_one c"
  by (simp add: plus_one_def)




text \<open>
  C10.  When the chat document does not exist, or exists without data, the update
  function throws before it buffers a write: the send is rejected with the error and the
  store, messages and chat documents alike, is the one before the call.
\<close>

theorem sendMessage_missing_chat:
  "(getChat s chatId = Absent \<longrightarrow>
      sendMessage_update now newId chatId senderId receiverId txt s = Inl ChatDoesNotExist \<and>
      sendMessage accepted now newId chatId senderId receiverId txt s = (Some ChatDoesNotExist, s)) \<and>
   (getChat s chatId = Empty \<longrightarrow>
      sendMessage_update now newId chatId senderId receiverId txt s = Inl ChatDataIsNull \<and>
      sendMessage accepted now newId chatId senderId receiverId txt s = (Some ChatDataIsNull, s))"
  by (simp add: sendMessage_def sendMessage_update_def sendMessage_updateData_def runTransaction_def)

theorem sendMessage_missing_chat_witness:
  "getChat empty_store ''a_b'' = Absent \<and>
   sendMessage True 1000 ''m1'' ''a_b'' ''a'' ''b'' ''hi'' empty_store =
     (Some ChatDoesNotExist, empty_store) \<and>
   getChat (empty_store\<lparr>chats := [(''a_b'', None)]\<rparr>) ''a_b'' = Empty \<and>
   sendMessage True 1000 ''m1'' ''a_b'' ''a'' ''b'' ''hi'' (empty_store\<lparr>chats := [(''a_b'', None)]\<rparr>) =
     (Some ChatDataIsNull, empty_store\<lparr>chats := [(''a_b'', None)]\<rparr>)"
proof -
  have a: "getChat empty_store ''a_b'' = Absent"
    by (simp add: getChat_def empty_store_def)
  have e: "getChat (empty_store\<lparr>chats := [(''a_b'', None)]\<rparr>) ''a_b'' = Empty"
    by (simp add: getChat_def empty_store_def)
  show ?thesis
    using a e
      sendMessage_missing_chat [of empty_store "''a_b''" 1000 "''m1''" "''a''" "''b''" "''hi''" True]
      sendMessage_missing_chat [of "empty_store\<lparr>chats := [(''a_b'', None)]\<rparr>" "''a_b''" 1000
        "''m1''" "''a''" "''b''" "''hi''" True]
    by simp
qed

subsection \<open>Marking as read\<close>

lemma msg_id_mark [simp]:
  "map msg_id (map (\<lambda>x. if P x then x\<lparr>msg_read := True\<rparr> else x) ms) = map msg_id ms"
  by (induction ms) auto

lemma mark_mark:
  "map (\<lambda>x. if msg_id x \<in> A then x\<lparr>msg_read := True\<rparr> else x)
     (map (\<lambda>x. if msg_id x = i then x\<lparr>msg_read := True\<rparr> else x) ms) =
   map (\<lambda>x. if msg_id x \<in> insert i A then x\<lparr>msg_read := True\<rparr> else x) ms"
  by (induction ms) auto

lemma commit_marks:
  "set ids \<subseteq> set (map msg_id (messages s c)) \<Longrightarrow>
   commit (map (UpdateMessageRead c) ids) s =
     Some (s\<lparr>messages := (messages s)(c :=
       map (\<lambda>x. if msg_id x \<in> set ids then x\<lparr>msg_read := True\<rparr> else x) (messages s c))\<rparr>)"
proof (induction ids arbitrary: s)
  case Nil
  then show ?case by simp
next
  case (Cons i ids)
  let ?s1 = "s\<lparr>messages := (messages s)(c :=
     map (\<lambda>x. if msg_id x = i then x\<lparr>msg_read := True\<rparr> else x) (messages s c))\<rparr>"
  have step: "apply_write (UpdateMessageRead c i) s = Some ?s1"
    using Cons.prems by (auto simp: Let_def)
  have sub: "set ids \<subseteq> set (map msg_id (messages ?s1 c))"
    using Cons.prems by (simp del: set_map map_map)
  have eq: "?s1\<lparr>messages := (messages ?s1)(c :=
       map (\<lambda>x. if msg_id x \<in> set ids then x\<lparr>msg_read := True\<rparr> else x) (messages ?s1 c))\<rparr> =
     s\<lparr>messages := (messages s)(c :=
       map (\<lambda>x. if msg_id x \<in> set (i # ids) then x\<lparr>msg_read := True\<rparr> else x) (messages s c))\<rparr>"
    by (simp add: mark_mark del: map_map)
  have "commit (map (UpdateMessageRead c) (i # ids)) s = commit (map (UpdateMessageRead c) ids) ?s1"
    using step by (simp del: apply_write.simps)
  also have "\<dots> = Some (?s1\<lparr>messages := (messages ?s1)(c :=
       map (\<lambda>x. if msg_id x \<in> set ids then x\<lparr>msg_read := True\<rparr> else x) (messages ?s1 c))\<rparr>)"
    by (rule Cons.IH[OF sub])
  finally show ?case by (simp only: eq)
qed

lemma markMessagesAsRead_commit:
  assumes ex: "getChat s chatId = Doc d"
      and sub: "set (map msg_id (unreadSnapshot chatId reader seen)) \<subseteq>
                set (map msg_id (messages s chatId))"
  shows "markMessagesAsRead True chatId reader seen s =
     (None, s\<lparr>messages := (messages s)(chatId :=
               map (\<lambda>x. if msg_id x \<in> set (map msg_id (unreadSnapshot chatId reader seen))
                        then x\<lparr>msg_read := True\<rparr> else x) (messages s chatId)),
             chats := AList.update chatId
               (Some (apply_update (markMessagesAsRead_updateData reader d) d)) (chats s)\<rparr>)"
proof -
  let ?ids = "map msg_id (unreadSnapshot chatId reader seen)"
  let ?s1 = "s\<lparr>messages := (messages s)(chatId :=
               map (\<lambda>x. if msg_id x \<in> set ?ids then x\<lparr>msg_read := True\<rparr> else x) (messages s chatId))\<rparr>"
  have upd: "markMessagesAsRead_update chatId reader seen s =
      Inr (map (UpdateMessageRead chatId) ?ids @
           [UpdateChat chatId (markMessagesAsRead_updateData reader d)])"
    using ex by (simp add: markMessagesAsRead_update_def Let_def comp_def)
  have c1: "commit (map (UpdateMessageRead chatId) ?ids) s = Some ?s1"
    by (rule commit_marks[OF sub])
  have g1: "getChat ?s1 chatId = Doc d"
    using ex by (simp add: getChat_simps)
  have "commit (map (UpdateMessageRead chatId) ?ids @
                [UpdateChat chatId (markMessagesAsRead_updateData reader d)]) s =
      Some (?s1\<lparr>chats := AList.update chatId
              (Some (apply_update (markMessagesAsRead_updateData reader d) d)) (chats ?s1)\<rparr>)"
    unfolding commit_append c1 using g1 by simp
  then show ?thesis
    unfolding markMessagesAsRead_def runTransaction_def upd by simp
qed

lemma unreadSnapshot_ids:
  "set (map msg_id (unreadSnapshot chatId reader s)) \<subseteq> set (map msg_id (messages s chatId))"
  by (auto simp: unreadSnapshot_def)

lemma markMessagesAsRead_rejected:
  "markMessagesAsRead False chatId reader seen s = (Some StoreRejected, s)"
  by (simp add: markMessagesAsRead_def runTransaction_def markMessagesAsRead_update_def Let_def
      split: chat_snapshot.splits)

lemma unread_after_mark:
  "filter (\<lambda>m. msg_receiverId m = reader \<and> msg_read m = False)
     (map (\<lambda>x. if msg_id x \<in> msg_id ` {m \<in> set ms. msg_receiverId m = reader \<and> msg_read m = False}
               then x\<lparr>msg_read := True\<rparr> else x) ms) = []"
  by (auto simp: filter_empty_conv)

lemma mark_distinct:
  "distinct (map msg_id ms) \<Longrightarrow>
   map (\<lambda>x. if msg_id x \<in> msg_id ` {m \<in> set ms. msg_receiverId m = reader \<and> msg_read m = False}
             then x\<lparr>msg_read := True\<rparr> else x) ms =
   map (\<lambda>m. if msg_receiverId m = reader then m\<lparr>msg_read := True\<rparr> else m) ms"
  by (rule map_cong) (auto simp: distinct_map inj_on_def)

lemma updateData_idem:
  "apply_update (markMessagesAsRead_updateData reader (apply_update (markMessagesAsRead_updateData reader d) d))
     (apply_update (markMessagesAsRead_updateData reader d) d) = apply_update (markMessagesAsRead_updateData reader d) d"
  by (simp add: apply_update_def markMessagesAsRead_updateData_def or_else_def no_update_def)

lemma markMessagesAsRead_effects:
  assumes ex: "getChat s chatId = Doc d"
      and res: "markMessagesAsRead accepted chatId reader s s = (r, s')"
  shows "(r \<noteq> None \<longrightarrow> s' = s) \<and> (r = None \<longleftrightarrow> accepted) \<and>
    (r = None \<longrightarrow>
       (\<forall>m \<in> set (messages s' chatId). msg_receiverId m = reader \<longrightarrow> msg_read m) \<and>
       (distinct (map msg_id (messages s chatId)) \<longrightarrow>
          messages s' chatId =
            map (\<lambda>m. if msg_receiverId m = reader then m\<lparr>msg_read := True\<rparr> else m)
              (messages s chatId)) \<and>
       (\<exists>d'. getChat s' chatId = Doc d' \<and>
          (cd_userId1 d = Some reader \<longrightarrow>
             cd_unreadCount1 d' = Some 0 \<and> cd_unreadCount2 d' = cd_unreadCount2 d) \<and>
          (cd_userId1 d \<noteq> Some reader \<and> cd_userId2 d = Some reader \<longrightarrow>
             cd_unreadCount2 d' = Some 0 \<and> cd_unreadCount1 d' = cd_unreadCount1 d) \<and>
          (0 \<le> or_zero (cd_unreadCount1 d) \<and> 0 \<le> or_zero (cd_unreadCount2 d) \<longrightarrow>
             0 \<le> or_zero (cd_unreadCount1 d') \<and> 0 \<le> or_zero (cd_unreadCount2 d'))) \<and>
       unreadSnapshot chatId reader s' = [] \<and>
       markMessagesAsRead_update chatId reader s' s' =
         Inr [UpdateChat chatId (markMessagesAsRead_updateData reader d)] \<and>
       markMessagesAsRead True chatId reader s' s' = (None, s'))"
proof (cases accepted)
  case False
  then show ?thesis using res by (auto simp: markMessagesAsRead_rejected)
next
  case True
  let ?d' = "apply_update (markMessagesAsRead_updateData reader d) d"
  let ?ms' = "map (\<lambda>x. if msg_id x \<in> set (map msg_id (unreadSnapshot chatId reader s))
                        then x\<lparr>msg_read := True\<rparr> else x) (messages s chatId)"
  have r: "r = None" and s': "s' = s\<lparr>messages := (messages s)(chatId := ?ms'),
             chats := AList.update chatId (Some ?d') (chats s)\<rparr>"
    using res True markMessagesAsRead_commit[OF ex unreadSnapshot_ids, of reader] by simp_all
  have ms: "messages s' chatId = ?ms'" by (simp add: s')
  have g: "getChat s' chatId = Doc ?d'" by (simp add: s' getChat_simps)
  have a: "\<forall>m \<in> set (messages s' chatId). msg_receiverId m = reader \<longrightarrow> msg_read m"
    unfolding ms by (auto simp: unreadSnapshot_def)
  have b: "distinct (map msg_id (messages s chatId)) \<longrightarrow>
          messages s' chatId =
            map (\<lambda>m. if msg_receiverId m = reader then m\<lparr>msg_read := True\<rparr> else m)
              (messages s chatId)"
    unfolding ms using mark_distinct[of "messages s chatId" reader]
    by (simp add: unreadSnapshot_def)
  have c: "(cd_userId1 d = Some reader \<longrightarrow>
             cd_unreadCount1 ?d' = Some 0 \<and> cd_unreadCount2 ?d' = cd_unreadCount2 d) \<and>
          (cd_userId1 d \<noteq> Some reader \<and> cd_userId2 d = Some reader \<longrightarrow>
             cd_unreadCount2 ?d' = Some 0 \<and> cd_unreadCount1 ?d' = cd_unreadCount1 d) \<and>
          (0 \<le> or_zero (cd_unreadCount1 d) \<and> 0 \<le> or_zero (cd_unreadCount2 d) \<longrightarrow>
             0 \<le> or_zero (cd_unreadCount1 ?d') \<and> 0 \<le> or_zero (cd_unreadCount2 ?d'))"
    by (simp add: apply_update_def markMessagesAsRead_updateData_def or_else_def no_update_def or_zero_def)
  have u: "unreadSnapshot chatId reader s' = []"
    using unread_after_mark[of reader "messages s chatId"]
    by (simp add: unreadSnapshot_def ms)
  have ru: "markMessagesAsRead_updateData reader ?d' = markMessagesAsRead_updateData reader d"
    by (simp add: apply_update_def markMessagesAsRead_updateData_def)
  have w: "markMessagesAsRead_update chatId reader s' s' = Inr [UpdateChat chatId (markMessagesAsRead_updateData reader d)]"
    using g u ru by (simp add: markMessagesAsRead_update_def markMessagesAsRead_updateData_def Let_def)
  have again: "markMessagesAsRead True chatId reader s' s' = (None, s')"
    unfolding markMessagesAsRead_commit[OF g unreadSnapshot_ids, of reader] u
    using updateData_idem[where d=d and reader=reader] by (simp add: s')
  show ?thesis using r True a b c u w again g by blast
qed

subsection \<open>The counters along a history\<close>

lemma counters_ok_createOrGetChat:
  "counters_ok s \<Longrightarrow> counters_ok (snd (createOrGetChat g d st now u1 u2 s))"
  by (auto simp: counters_ok_def createOrGetChat_def newChat_def Let_def getChat_simps
      or_zero_def split: chat_snapshot.splits if_splits)

lemma counters_ok_sendMessage:
  "counters_ok s \<Longrightarrow> counters_ok (snd (sendMessage a now newId c sender receiver txt s))"
  by (auto simp: counters_ok_def sendMessage_def sendMessage_update_def
      sendMessage_updateData_def runTransaction_def Let_def getChat_simps apply_update_def
      or_else_def no_update_def or_zero_def plus_one_nonneg
      split: chat_snapshot.splits if_splits option.splits)

lemma commit_marks_chats:
  "commit (map (\<lambda>m. UpdateMessageRead c (f m)) ms) s = Some s' \<Longrightarrow> chats s' = chats s"
  by (induction ms arbitrary: s) (auto simp: Let_def split: if_splits option.splits)

lemma markMessagesAsRead_chats:
  assumes "markMessagesAsRead a c u seen s = (r, s')"
  shows "chats s' = chats s \<or>
         (\<exists>d. getChat s c = Doc d \<and>
              chats s' = AList.update c (Some (apply_update (markMessagesAsRead_updateData u d) d))
                           (chats s))"
proof (cases "getChat s c")
  case (Doc d)
  have g: "getChat s1 c = Doc d" if "chats s1 = chats s" for s1
    using that Doc by (simp add: getChat_def)
  show ?thesis
    using assms Doc
    by (auto simp: markMessagesAsRead_def runTransaction_def markMessagesAsRead_update_def
        Let_def commit_append g dest!: commit_marks_chats split: option.splits if_splits)
next
  case Absent
  then show ?thesis
    using assms
    by (auto simp: markMessagesAsRead_def runTransaction_def markMessagesAsRead_update_def
        Let_def dest!: commit_marks_chats split: option.splits if_splits)
next
  case Empty
  then show ?thesis
    using assms
    by (auto simp: markMessagesAsRead_def runTransaction_def markMessagesAsRead_update_def
        Let_def dest!: commit_marks_chats split: option.splits if_splits)
qed

lemma counters_ok_markMessagesAsRead:
  assumes "counters_ok s"
  shows "counters_ok (snd (markMessagesAsRead a c u seen s))"
proof -
  obtain r s' where res: "markMessagesAsRead a c u seen s = (r, s')"
    by (cases "markMessagesAsRead a c u seen s")
  from markMessagesAsRead_chats[OF res] have "counters_ok s'"
  proof
    assume "chats s' = chats s"
    then show ?thesis using assms by (simp add: counters_ok_def getChat_def)
  next
    assume "\<exists>d. getChat s c = Doc d \<and>
              chats s' = AList.update c (Some (apply_update (markMessagesAsRead_updateData u d) d))
                           (chats s)"
    then obtain d where d: "getChat s c = Doc d"
      and c: "chats s' = AList.update c (Some (apply_update (markMessagesAsRead_updateData u d) d)) (chats s)"
      by blast
    have "getChat s' k = (if k = c then Doc (apply_update (markMessagesAsRead_updateData u d) d)
                          else getChat s k)" for k
      by (simp add: getChat_def c update_conv')
    then show ?thesis
      using assms d
      by (auto simp: counters_ok_def apply_update_def or_else_def no_update_def or_zero_def
          markMessagesAsRead_updateData_def split: if_splits)
  qed
  then show ?thesis by (simp add: res)
qed

lemma counters_ok_perform: "counters_ok s \<Longrightarrow> counters_ok (perform call s)"
  by (cases call)
    (simp_all add: counters_ok_createOrGetChat counters_ok_sendMessage counters_ok_markMessagesAsRead)

lemma counters_ok_history: "counters_ok s \<Longrightarrow> counters_ok (fold perform calls s)"
  by (induction calls arbitrary: s) (simp_all add: counters_ok_perform)

text \<open>
  Marking as read when no other write comes between the query and the commit.  Marking a
  thread as read for a reader then either commits as a whole or changes nothing, and it
  commits exactly when the store accepts the transaction.  When it commits, every
  message of the thread addressed to the reader has \<open>read = true\<close> (with distinct message
  ids, exactly the reader's messages are flipped and nothing else changes); the unread
  counter of the reader's side is \<open>0\<close> and the other counter is left alone; no unread message
  for the reader remains.  A second invocation finds no unread message, so it buffers no
  message write, and it leaves the store, the counter at \<open>0\<close> included, as the first one
  left it.  Along every history of calls of the chat service that starts without chats,
  whatever the queries of its calls saw, no unread counter is ever negative.
\<close>

theorem markMessagesAsRead_undisturbed:
  "(getChat s chatId = Doc d \<and> markMessagesAsRead accepted chatId reader s s = (r, s') \<longrightarrow>
    (r \<noteq> None \<longrightarrow> s' = s) \<and> (r = None \<longleftrightarrow> accepted) \<and>
    (r = None \<longrightarrow>
       (\<forall>m \<in> set (messages s' chatId). msg_receiverId m = reader \<longrightarrow> msg_read m) \<and>
       (distinct (map msg_id (messages s chatId)) \<longrightarrow>
          messages s' chatId =
            map (\<lambda>m. if msg_receiverId m = reader then m\<lparr>msg_read := True\<rparr> else m)
              (messages s chatId)) \<and>
       (\<exists>d'. getChat s' chatId = Doc d' \<and>
          (cd_userId1 d = Some reader \<longrightarrow>
             cd_unreadCount1 d' = Some 0 \<and> cd_unreadCount2 d' = cd_unreadCount2 d) \<and>
          (cd_userId1 d \<noteq> Some reader \<and> cd_userId2 d = Some reader \<longrightarrow>
             cd_unreadCount2 d' = Some 0 \<and> cd_unreadCount1 d' = cd_unreadCount1 d)) \<and>
       unreadSnapshot chatId reader s' = [] \<and>
       markMessagesAsRead_update chatId reader s' s' =
         Inr [UpdateChat chatId (markMessagesAsRead_updateData reader d)] \<and>
       markMessagesAsRead True chatId reader s' s' = (None, s'))) \<and>
   (chats s0 = [] \<longrightarrow> counters_ok (fold perform calls s0))"
proof -
  have "counters_ok s0" if "chats s0 = []"
    using that by (simp add: counters_ok_def getChat_def)
  then have "chats s0 = [] \<longrightarrow> counters_ok (fold perform calls s0)"
    by (simp add: counters_ok_history)
  moreover have "getChat s chatId = Doc d \<and> markMessagesAsRead accepted chatId reader s s = (r, s') \<longrightarrow>
    (r \<noteq> None \<longrightarrow> s' = s) \<and> (r = None \<longleftrightarrow> accepted) \<and>
    (r = None \<longrightarrow>
       (\<forall>m \<in> set (messages s' chatId). msg_receiverId m = reader \<longrightarrow> msg_read m) \<and>
       (distinct (map msg_id (messages s chatId)) \<longrightarrow>
          messages s' chatId =
            map (\<lambda>m. if msg_receiverId m = reader then m\<lparr>msg_read := True\<rparr> else m)
              (messages s chatId)) \<and>
       (\<exists>d'. getChat s' chatId = Doc d' \<and>
          (cd_userId1 d = Some reader \<longrightarrow>
             cd_unreadCount1 d' = Some 0 \<and> cd_unreadCount2 d' = cd_unreadCount2 d) \<and>
          (cd_userId1 d \<noteq> Some reader \<and> cd_userId2 d = Some reader \<longrightarrow>
             cd_unreadCount2 d' = Some 0 \<and> cd_unreadCount1 d' = cd_unreadCount1 d)) \<and>
       unreadSnapshot chatId reader s' = [] \<and>
       markMessagesAsRead_update chatId reader s' s' =
         Inr [UpdateChat chatId (markMessagesAsRead_updateData reader d)] \<and>
       markMessagesAsRead True chatId reader s' s' = (None, s'))"
    using markMessagesAsRead_effects [of s chatId d accepted reader r s'] by blast
  ultimately show ?thesis by blast
qed

theorem markMessagesAsRead_undisturbed_sample:
  "getChat store_ab_hi ''a_b'' = Doc (chat_ab\<lparr>cd_lastMessage := Some ''hi'',
      cd_lastMessageTime := Some 1000, cd_unreadCount2 := Some 1\<rparr>) \<and>
   markMessagesAsRead True ''a_b'' ''b'' store_ab_hi store_ab_hi = (None, store_ab_read) \<and>
   distinct (map msg_id (messages store_ab_hi ''a_b'')) \<and>
   messages store_ab_read ''a_b'' = [hi_ab\<lparr>msg_read := True\<rparr>] \<and>
   unreadSnapshot ''a_b'' ''b'' store_ab_read = [] \<and>
   markMessagesAsRead True ''a_b'' ''b'' store_ab_read store_ab_read = (None, store_ab_read) \<and>
   chats empty_store = [] \<and>
   fold perform [CreateOrGetChat True True True 0 ''a'' ''b'',
     SendMessage True 1000 ''m1'' ''a_b'' ''a'' ''b'' ''hi'',
     MarkMessagesAsRead True ''a_b'' ''b'' store_ab_hi] empty_store = store_ab_read \<and>
   counters_ok store_ab_read \<and>
   messages (snd (markMessagesAsRead True ''a_b'' ''a'' store_ab_yo store_ab_yo)) ''a_b'' =
     [hi_ab, yo_ba\<lparr>msg_read := True\<rparr>] \<and>
   (\<exists>d'. getChat (snd (markMessagesAsRead True ''a_b'' ''a'' store_ab_yo store_ab_yo)) ''a_b'' = Doc d' \<and>
      cd_unreadCount1 d' = Some 0 \<and> cd_unreadCount2 d' = Some 1) \<and>
   markMessagesAsRead False ''a_b'' ''b'' store_ab_hi store_ab_hi = (Some StoreRejected, store_ab_hi)"
proof -
  let ?d = "chat_ab\<lparr>cd_lastMessage := Some ''hi'',
      cd_lastMessageTime := Some 1000, cd_unreadCount2 := Some 1\<rparr>"
  let ?calls = "[CreateOrGetChat True True True 0 ''a'' ''b'',
     SendMessage True 1000 ''m1'' ''a_b'' ''a'' ''b'' ''hi'',
     MarkMessagesAsRead True ''a_b'' ''b'' store_ab_hi]"
  have ex: "getChat store_ab_hi ''a_b'' = Doc ?d"
    by (simp add: getChat_def store_ab_hi_def empty_store_def)
  have run: "markMessagesAsRead True ''a_b'' ''b'' store_ab_hi store_ab_hi = (None, store_ab_read)"
    by (simp add: markMessagesAsRead_def markMessagesAsRead_update_def
        markMessagesAsRead_updateData_def unreadSnapshot_def runTransaction_def
        store_ab_hi_def store_ab_read_def empty_store_def chat_ab_def hi_ab_def
        getChat_def apply_update_def or_else_def no_update_def Let_def)
  have dist: "distinct (map msg_id (messages store_ab_hi ''a_b''))"
    by (simp add: store_ab_hi_def empty_store_def)
  have start: "chats empty_store = []"
    by (simp add: empty_store_def)
  have hist: "fold perform ?calls empty_store = store_ab_read"
    by (simp add: createOrGetChat_def newChat_def getChatId_def
        sendMessage_def sendMessage_update_def sendMessage_updateData_def
        markMessagesAsRead_def markMessagesAsRead_update_def
        markMessagesAsRead_updateData_def unreadSnapshot_def runTransaction_def
        store_ab_hi_def store_ab_read_def empty_store_def chat_ab_def hi_ab_def
        getChat_def apply_update_def or_else_def no_update_def or_zero_def Let_def)
  have one: "messages store_ab_read ''a_b'' = [hi_ab\<lparr>msg_read := True\<rparr>] \<and>
     unreadSnapshot ''a_b'' ''b'' store_ab_read = [] \<and>
     markMessagesAsRead True ''a_b'' ''b'' store_ab_read store_ab_read = (None, store_ab_read) \<and>
     counters_ok store_ab_read"
    using markMessagesAsRead_undisturbed [of store_ab_hi "''a_b''" ?d True "''b''" None store_ab_read
        empty_store ?calls] ex run dist start hist
    by (auto simp: store_ab_read_def empty_store_def hi_ab_def)
  let ?e = "chat_ab\<lparr>cd_lastMessage := Some ''yo'', cd_lastMessageTime := Some 2000,
      cd_unreadCount1 := Some 1, cd_unreadCount2 := Some 1\<rparr>"
  let ?res = "markMessagesAsRead True ''a_b'' ''a'' store_ab_yo store_ab_yo"
  have ex2: "getChat store_ab_yo ''a_b'' = Doc ?e"
    by (simp add: getChat_def store_ab_yo_def empty_store_def)
  have dist2: "distinct (map msg_id (messages store_ab_yo ''a_b''))"
    by (simp add: store_ab_yo_def empty_store_def hi_ab_def yo_ba_def)
  have side: "cd_userId1 ?e = Some ''a''" "cd_unreadCount2 ?e = Some 1"
    by (simp_all add: chat_ab_def)
  have ms: "map (\<lambda>m. if msg_receiverId m = ''a'' then m\<lparr>msg_read := True\<rparr> else m)
              (messages store_ab_yo ''a_b'') = [hi_ab, yo_ba\<lparr>msg_read := True\<rparr>]"
    by (simp add: store_ab_yo_def empty_store_def hi_ab_def yo_ba_def)
  have two: "messages (snd ?res) ''a_b'' = [hi_ab, yo_ba\<lparr>msg_read := True\<rparr>] \<and>
     (\<exists>d'. getChat (snd ?res) ''a_b'' = Doc d' \<and>
        cd_unreadCount1 d' = Some 0 \<and> cd_unreadCount2 d' = Some 1)"
    using markMessagesAsRead_undisturbed [of store_ab_yo "''a_b''" ?e True "''a''" "fst ?res" "snd ?res"
        empty_store "[]"] ex2 dist2 side ms
    by auto
  let ?rej = "markMessagesAsRead False ''a_b'' ''b'' store_ab_hi store_ab_hi"
  have three: "?rej = (Some StoreRejected, store_ab_hi)"
  proof -
    have "fst ?rej \<noteq> None \<and> snd ?rej = store_ab_hi"
      using markMessagesAsRead_undisturbed [of store_ab_hi "''a_b''" ?d False "''b''" "fst ?rej" "snd ?rej"
          empty_store "[]"] ex
      by auto
    moreover have "fst ?rej = Some StoreRejected"
      by (simp add: markMessagesAsRead_rejected)
    ultimately show ?thesis by (simp add: prod_eq_iff)
  qed
  show ?thesis
    using ex run dist start hist one two three by blast
qed

text \<open>
  C4.  \<^verbatim>\<open>markMessagesAsRead\<close> for the reader \<open>b\<close> of the thread of \<open>a\<close> and \<open>b\<close>, where the
  query saw one unread message, \<open>hi\<close>.  When \<open>a\<close> sends \<open>again\<close> before the transaction of
  the call commits, the transaction marks \<open>hi\<close> alone and sets the counter of \<open>b\<close> to \<open>0\<close>:
  after the commit the message \<open>again\<close> is unread for \<open>b\<close> and the counter of \<open>b\<close> is \<open>0\<close>.
  When, instead, another call for \<open>b\<close> whose query saw the same unread message commits
  first, the transaction still writes \<open>hi\<close>, which is read by then; the counter stays \<open>0\<close>.
\<close>

theorem markMessagesAsRead_race:
  "unreadSnapshot ''a_b'' ''b'' store_ab_hi = [hi_ab] \<and>
   sendMessage True 2000 ''m2'' ''a_b'' ''a'' ''b'' ''again'' store_ab_hi = (None, store_ab_again) \<and>
   markMessagesAsRead True ''a_b'' ''b'' store_ab_hi store_ab_again = (None, store_ab_raced) \<and>
   unreadSnapshot ''a_b'' ''b'' store_ab_raced = [again_ab] \<and>
   getChat store_ab_raced ''a_b'' =
     Doc (chat_ab\<lparr>cd_lastMessage := Some ''again'', cd_lastMessageTime := Some 2000,
            cd_unreadCount2 := Some 0\<rparr>) \<and>
   markMessagesAsRead True ''a_b'' ''b'' store_ab_hi store_ab_hi = (None, store_ab_read) \<and>
   markMessagesAsRead_update ''a_b'' ''b'' store_ab_hi store_ab_read =
     Inr [UpdateMessageRead ''a_b'' ''m1'',
          UpdateChat ''a_b'' (no_update\<lparr>set_unreadCount2 := Some 0\<rparr>)] \<and>
   markMessagesAsRead True ''a_b'' ''b'' store_ab_hi store_ab_read = (None, store_ab_read)"
proof -
  have q: "unreadSnapshot ''a_b'' ''b'' store_ab_hi = [hi_ab]"
    by (simp add: unreadSnapshot_def store_ab_hi_def empty_store_def hi_ab_def)
  have send: "sendMessage True 2000 ''m2'' ''a_b'' ''a'' ''b'' ''again'' store_ab_hi =
      (None, store_ab_again)"
    by (simp add: sendMessage_def sendMessage_update_def sendMessage_updateData_def
        runTransaction_def store_ab_hi_def store_ab_again_def empty_store_def chat_ab_def
        hi_ab_def again_ab_def getChat_def apply_update_def or_else_def no_update_def
        or_zero_def Let_def)
  have raced: "markMessagesAsRead True ''a_b'' ''b'' store_ab_hi store_ab_again =
      (None, store_ab_raced)"
    unfolding markMessagesAsRead_def markMessagesAsRead_update_def q
    by (simp add: markMessagesAsRead_updateData_def runTransaction_def
        store_ab_again_def store_ab_raced_def empty_store_def chat_ab_def hi_ab_def
        again_ab_def getChat_def apply_update_def or_else_def no_update_def Let_def)
  have left: "unreadSnapshot ''a_b'' ''b'' store_ab_raced = [again_ab]"
    by (simp add: unreadSnapshot_def store_ab_raced_def empty_store_def hi_ab_def again_ab_def)
  have counter: "getChat store_ab_raced ''a_b'' =
     Doc (chat_ab\<lparr>cd_lastMessage := Some ''again'', cd_lastMessageTime := Some 2000,
            cd_unreadCount2 := Some 0\<rparr>)"
    by (simp add: getChat_def store_ab_raced_def empty_store_def)
  have first: "markMessagesAsRead True ''a_b'' ''b'' store_ab_hi store_ab_hi = (None, store_ab_read)"
    unfolding markMessagesAsRead_def markMessagesAsRead_update_def q
    by (simp add: markMessagesAsRead_updateData_def runTransaction_def
        store_ab_hi_def store_ab_read_def empty_store_def chat_ab_def hi_ab_def
        getChat_def apply_update_def or_else_def no_update_def Let_def)
  have writes: "markMessagesAsRead_update ''a_b'' ''b'' store_ab_hi store_ab_read =
     Inr [UpdateMessageRead ''a_b'' ''m1'',
          UpdateChat ''a_b'' (no_update\<lparr>set_unreadCount2 := Some 0\<rparr>)]"
    unfolding markMessagesAsRead_update_def q
    by (simp add: markMessagesAsRead_updateData_def store_ab_read_def empty_store_def
        chat_ab_def hi_ab_def getChat_def Let_def)
  have second: "markMessagesAsRead True ''a_b'' ''b'' store_ab_hi store_ab_read =
      (None, store_ab_read)"
    unfolding markMessagesAsRead_def writes runTransaction_def
    by (simp add: store_ab_read_def empty_store_def chat_ab_def hi_ab_def
        getChat_def apply_update_def or_else_def no_update_def)
  show ?thesis
    using q send raced left counter first writes second by blast
qed

section \<open>Properties of the chat detail screen\<close>

subsection \<open>Reconciliation of optimistic messages\<close>

lemma replaced_iff:
  assumes d: "distinct (map msg_id (optimisticMessages prev))"
      and p: "p \<in> set (optimisticMessages prev)"
  shows "msg_id p \<in> set (replacedOptimisticIds prev new) \<longleftrightarrow>
         (\<exists>c \<in> set (realMessages new). replaces c p)"
proof
  assume "msg_id p \<in> set (replacedOptimisticIds prev new)"
  then obtain q where q: "q \<in> set (optimisticMessages prev)"
      "\<exists>c \<in> set (realMessages new). replaces c q" "msg_id q = msg_id p"
    by (fastforce simp: replacedOptimisticIds_def list_ex_iff)
  from d p q(1,3) have "q = p"
    by (auto simp: distinct_map inj_on_def)
  with q(2) show "\<exists>c \<in> set (realMessages new). replaces c p" by simp
next
  assume "\<exists>c \<in> set (realMessages new). replaces c p"
  with p show "msg_id p \<in> set (replacedOptimisticIds prev new)"
    by (auto simp: replacedOptimisticIds_def list_ex_iff)
qed

lemma remaining_eq:
  assumes d: "distinct (map msg_id (optimisticMessages prev))"
  shows "remainingOptimistic prev new =
     filter (\<lambda>p. \<not> (\<exists>c \<in> set (realMessages new). replaces c p)) (optimisticMessages prev)"
  unfolding remainingOptimistic_def
  by (rule filter_cong) (simp_all add: replaced_iff[OF d])

lemma optimistic_not_real: "p \<in> set (optimisticMessages prev) \<Longrightarrow> p \<notin> set (realMessages new)"
  by (auto simp: optimisticMessages_def realMessages_def)

text \<open>
  C5.  The pending messages are those of the shown list whose id starts with \<open>temp-\<close>, the
  confirmed ones those of the delivered list whose id does not; pending messages have
  distinct ids.  A pending message is dropped exactly when some confirmed message has the
  same text, the same sender and a time less than 5000 ms away; every confirmed message
  is kept.  The result holds the confirmed messages and the surviving pending ones, each as
  often as it occurs, in ascending order of time.  In particular, when every pending
  message has its confirmation, the result is the confirmed messages alone: a message and
  its confirmation do not both appear.
\<close>

theorem reconcileMessages_correct:
  assumes d: "distinct (map msg_id (optimisticMessages prev))"
  shows "(\<forall>p \<in> set (optimisticMessages prev).
            p \<in> set (reconcileMessages prev new) \<longleftrightarrow>
            \<not> (\<exists>c \<in> set (realMessages new). replaces c p)) \<and>
         mset (reconcileMessages prev new) =
           mset (realMessages new) +
           mset (filter (\<lambda>p. \<not> (\<exists>c \<in> set (realMessages new). replaces c p))
                   (optimisticMessages prev)) \<and>
         sorted (map msg_timestamp (reconcileMessages prev new)) \<and>
         ((\<forall>p \<in> set (optimisticMessages prev). \<exists>c \<in> set (realMessages new). replaces c p) \<longrightarrow>
            reconcileMessages prev new = sort_key msg_timestamp (realMessages new))"
proof -
  have r: "remainingOptimistic prev new =
     filter (\<lambda>p. \<not> (\<exists>c \<in> set (realMessages new). replaces c p)) (optimisticMessages prev)"
    by (rule remaining_eq[OF d])
  have a: "\<forall>p \<in> set (optimisticMessages prev).
            p \<in> set (reconcileMessages prev new) \<longleftrightarrow>
            \<not> (\<exists>c \<in> set (realMessages new). replaces c p)"
    using optimistic_not_real[of _ prev new] by (auto simp: reconcileMessages_def r)
  have b: "mset (reconcileMessages prev new) =
           mset (realMessages new) +
           mset (filter (\<lambda>p. \<not> (\<exists>c \<in> set (realMessages new). replaces c p))
                   (optimisticMessages prev))"
    by (simp add: reconcileMessages_def r)
  have c: "sorted (map msg_timestamp (reconcileMessages prev new))"
    by (simp add: reconcileMessages_def)
  have e: "(\<forall>p \<in> set (optimisticMessages prev). \<exists>c \<in> set (realMessages new). replaces c p) \<longrightarrow>
            reconcileMessages prev new = sort_key msg_timestamp (realMessages new)"
    by (auto simp: reconcileMessages_def r filter_empty_conv)
  show ?thesis using a b c e by blast
qed

theorem reconcileMessages_correct_witness:
  "distinct (map msg_id (optimisticMessages [pending_hi, pending_yo])) \<and>
   optimisticMessages [pending_hi, pending_yo] = [pending_hi, pending_yo] \<and>
   realMessages [hi_ab] = [hi_ab] \<and>
   replaces hi_ab pending_hi \<and> \<not> replaces hi_ab pending_yo \<and>
   reconcileMessages [pending_hi, pending_yo] [hi_ab] = [pending_yo, hi_ab] \<and>
   reconcileMessages [pending_hi] [hi_ab] = [hi_ab]"
proof -
  have o2: "optimisticMessages [pending_hi, pending_yo] = [pending_hi, pending_yo]"
    by (simp add: optimisticMessages_def startsWith_def pending_hi_def pending_yo_def)
  have o1: "optimisticMessages [pending_hi] = [pending_hi]"
    by (simp add: optimisticMessages_def startsWith_def pending_hi_def)
  have r: "realMessages [hi_ab] = [hi_ab]"
    by (simp add: realMessages_def startsWith_def hi_ab_def)
  have d2: "distinct (map msg_id (optimisticMessages [pending_hi, pending_yo]))"
    unfolding o2 by (simp add: pending_hi_def pending_yo_def)
  have d1: "distinct (map msg_id (optimisticMessages [pending_hi]))"
    by (simp add: o1)
  have m: "replaces hi_ab pending_hi" "\<not> replaces hi_ab pending_yo"
    by (simp_all add: replaces_def pending_hi_def pending_yo_def hi_ab_def)
  have all: "reconcileMessages [pending_hi] [hi_ab] = [hi_ab]"
    using reconcileMessages_correct [OF d1, of "[hi_ab]"] m unfolding o1 r by simp
  have two: "reconcileMessages [pending_hi, pending_yo] [hi_ab] = [pending_yo, hi_ab]"
    unfolding reconcileMessages_def remainingOptimistic_def replacedOptimisticIds_def o2 r
    by (simp add: replaces_def pending_hi_def pending_yo_def hi_ab_def)
  show ?thesis using o2 r d2 m all two by simp
qed

subsection \<open>A send that fails\<close>

text \<open>
  C8.  When a send that passed the guard fails, whatever the other handlers did to the
  screen in the meantime, the handler removes every message carrying the temporary id of
  the send from the shown list and keeps the others, puts the text of the message back
  into the input field, and clears \<open>sending\<close>; the store is unchanged.  The text of the
  message is the text that was being sent, the content of the input field without the
  white space around it: the user finds it in the field again and can send it again.
\<close>

theorem handleSendMessage_failure_rolls_back:
  assumes ok: "canSend chatId currentUserId scr"
      and fails: "fst (sendMessage accepted now newId chatId currentUserId otherUserId
                    (trim (scr_inputText scr)) s) \<noteq> None"
      and res: "handleSendMessage accepted now newId stamp rnd clock meanwhile chatId currentUserId
                  otherUserId (scr, s) = (scr', s')"
  shows "tempId stamp rnd \<notin> set (map msg_id (scr_messages scr')) \<and>
         scr_messages scr' =
           filter (\<lambda>msg. msg_id msg \<noteq> tempId stamp rnd)
             (scr_messages (meanwhile
                (handleSendMessage_begin stamp rnd clock chatId currentUserId otherUserId scr))) \<and>
         scr_inputText scr' = trim (scr_inputText scr) \<and>
         \<not> scr_sending scr' \<and>
         s' = s"
proof -
  obtain e s1 where send: "sendMessage accepted now newId chatId currentUserId otherUserId
                    (trim (scr_inputText scr)) s = (Some e, s1)"
    using fails by (cases "sendMessage accepted now newId chatId currentUserId otherUserId
                    (trim (scr_inputText scr)) s") auto
  then have "s1 = s"
    unfolding sendMessage_def by (rule runTransaction_error_unchanged)
  with send res ok show ?thesis
    by (auto simp: handleSendMessage_def handleSendMessage_catch_def handleSendMessage_finally_def
        Let_def)
qed

theorem handleSendMessage_failure_rolls_back_witness:
  "canSend ''a_b'' ''a'' typing_hi \<and>
   fst (sendMessage False 1000 ''m1'' ''a_b'' ''a'' ''b'' (trim (scr_inputText typing_hi)) store_ab)
     \<noteq> None \<and>
   handleSendMessage False 1000 ''m1'' ''800'' ''0.5'' 800 (\<lambda>scr. scr)
      ''a_b'' ''a'' ''b'' (typing_hi, store_ab) =
     (\<lparr>scr_messages = [], scr_inputText = ''hi'', scr_sending = False\<rparr>, store_ab) \<and>
   trim (scr_inputText typing_hi) = ''hi''"
proof -
  have ok: "canSend ''a_b'' ''a'' typing_hi"
    by (simp add: canSend_def typing_hi_def trim_def isWhiteSpace_def)
  have fails: "fst (sendMessage False 1000 ''m1'' ''a_b'' ''a'' ''b'' (trim (scr_inputText typing_hi)) store_ab)
     \<noteq> None"
    by (simp add: sendMessage_def sendMessage_update_def runTransaction_def store_ab_def
        empty_store_def getChat_def)
  have t: "trim (scr_inputText typing_hi) = ''hi''"
    by (simp add: typing_hi_def trim_def isWhiteSpace_def)
  have shown: "scr_messages (handleSendMessage_begin ''800'' ''0.5'' 800 ''a_b'' ''a'' ''b'' typing_hi) =
     [\<lparr>msg_id = ''temp-800-0.5'', msg_chatId = ''a_b'', msg_senderId = ''a'',
       msg_receiverId = ''b'', msg_text = ''hi'', msg_timestamp = 800, msg_read = False\<rparr>]"
    by (simp add: handleSendMessage_begin_def tempId_def t Let_def) (simp add: typing_hi_def)
  show ?thesis
    using handleSendMessage_failure_rolls_back [OF ok fails, of "''800''" "''0.5''" 800 "\<lambda>scr. scr"
        "fst (handleSendMessage False 1000 ''m1'' ''800'' ''0.5'' 800 (\<lambda>scr. scr)
           ''a_b'' ''a'' ''b'' (typing_hi, store_ab))"
        "snd (handleSendMessage False 1000 ''m1'' ''800'' ''0.5'' 800 (\<lambda>scr. scr)
           ''a_b'' ''a'' ''b'' (typing_hi, store_ab))"]
      ok fails t shown
    by (cases "handleSendMessage False 1000 ''m1'' ''800'' ''0.5'' 800 (\<lambda>scr. scr)
           ''a_b'' ''a'' ''b'' (typing_hi, store_ab)")
       (auto simp: tempId_def chat_screen.equality)
qed

section \<open>Properties of the chat list\<close>

lemma set_chatDocs: "set (chatDocs al) = {(i, d). (i, Some d) \<in> set al}"
  by (induction al rule: chatDocs.induct) auto

lemma distinct_chatDocs: "distinct (map fst al) \<Longrightarrow> distinct (map fst (chatDocs al))"
  by (induction al rule: chatDocs.induct) (auto simp: set_chatDocs image_iff)

lemma fold_update_keys:
  "fst ` set (fold (\<lambda>c m. AList.update (chat_id c) c m) xs m0) = chat_id ` set xs \<union> fst ` set m0"
  by (induction xs arbitrary: m0) (auto simp: dom_update)

lemma fold_update_distinct:
  "distinct (map fst m0) \<Longrightarrow> distinct (map fst (fold (\<lambda>c m. AList.update (chat_id c) c m) xs m0))"
  by (induction xs arbitrary: m0) (auto simp: distinct_update)

lemma update_keyed:
  "\<forall>(k, v) \<in> set m. chat_id v = k \<Longrightarrow> \<forall>(k, v) \<in> set (AList.update (chat_id c) c m). chat_id v = k"
  by (induction m) (auto split: if_splits)

lemma fold_update_keyed:
  "\<forall>(k, v) \<in> set m0. chat_id v = k \<Longrightarrow>
   \<forall>(k, v) \<in> set (fold (\<lambda>c m. AList.update (chat_id c) c m) xs m0). chat_id v = k"
proof (induction xs arbitrary: m0)
  case Nil
  then show ?case by simp
next
  case (Cons c xs)
  show ?case
    unfolding fold_simps by (rule Cons.IH) (rule update_keyed[OF Cons.prems])
qed

lemma uniqueChats_ids: "map chat_id (uniqueChats xs) = map fst (fold (\<lambda>c m. AList.update (chat_id c) c m) xs [])"
proof -
  have "\<forall>(k, v) \<in> set (fold (\<lambda>c m. AList.update (chat_id c) c m) xs []). chat_id v = k"
    by (rule fold_update_keyed) simp
  then show ?thesis
    unfolding uniqueChats_def by (auto simp: map_eq_conv)
qed

lemma uniqueChats_distinct: "distinct (map chat_id (uniqueChats xs))"
  unfolding uniqueChats_ids by (rule fold_update_distinct) simp

lemma uniqueChats_set: "set (map chat_id (uniqueChats xs)) = chat_id ` set xs"
  unfolding uniqueChats_ids using fold_update_keys[of xs "[]"] by simp

lemma withUserData_id [simp]: "chat_id (withUserData u s c) = chat_id c"
  by (simp add: withUserData_def Let_def)

lemma toChat_id [simp]: "chat_id (toChat doc) = fst doc"
  by (simp add: toChat_def Let_def)

lemma processChats_ids:
  assumes "processChats True u s = Some cs"
  shows "mset (map chat_id cs) = mset (map chat_id (uniqueChats (map toChat (whereUserId1 u s) @ map toChat (whereUserId2 u s))))"
  using assms by (auto simp: processChats_def Let_def multiset.map_comp comp_def)

lemma processChats_ids_set:
  assumes "processChats True u s = Some cs"
  shows "set (map chat_id cs) = fst ` set (whereUserId1 u s) \<union> fst ` set (whereUserId2 u s)"
proof -
  have "set (map chat_id cs) = set_mset (mset (map chat_id cs))" by simp
  also have "\<dots> = set (map chat_id (uniqueChats (map toChat (whereUserId1 u s) @ map toChat (whereUserId2 u s))))"
    unfolding processChats_ids[OF assms] by simp
  also have "\<dots> = fst ` set (whereUserId1 u s) \<union> fst ` set (whereUserId2 u s)"
    unfolding uniqueChats_set by (simp add: image_Un image_image)
  finally show ?thesis .
qed

lemma processChats_ids_distinct:
  assumes "processChats True u s = Some cs"
  shows "distinct (map chat_id cs)"
  using processChats_ids[OF assms] uniqueChats_distinct mset_eq_imp_distinct_iff by blast

lemma only_side2:
  assumes d: "distinct (map fst (chats s))"
  shows "fst ` set (whereUserId2 u s) - fst ` set (whereUserId1 u s) =
         fst ` set (filter (\<lambda>(i, d). cd_userId1 d \<noteq> Some u) (whereUserId2 u s))"
    (is "?L = ?R")
proof -
  have uniq: "d1 = d2"
    if "(i, d1) \<in> set (chatDocs (chats s))" "(i, d2) \<in> set (chatDocs (chats s))" for i d1 d2
  proof -
    from that have "(i, Some d1) \<in> set (chats s)" "(i, Some d2) \<in> set (chats s)"
      by (simp_all add: set_chatDocs)
    with d have "Some d1 = Some d2" by (rule eq_key_imp_eq_value)
    then show ?thesis by simp
  qed
  show ?thesis
  proof (rule set_eqI)
    fix i
    show "i \<in> ?L \<longleftrightarrow> i \<in> ?R"
    proof
      assume "i \<in> ?L"
      then obtain d2 where m: "(i, d2) \<in> set (chatDocs (chats s))" "cd_userId2 d2 = Some u"
        and n: "i \<notin> fst ` set (whereUserId1 u s)"
        by (auto simp: whereUserId2_def)
      from n m(1) have "cd_userId1 d2 \<noteq> Some u"
        by (force simp: whereUserId1_def)
      with m show "i \<in> ?R"
        by (force simp: whereUserId2_def)
    next
      assume "i \<in> ?R"
      then obtain d2 where m: "(i, d2) \<in> set (chatDocs (chats s))" "cd_userId2 d2 = Some u"
        "cd_userId1 d2 \<noteq> Some u"
        by (auto simp: whereUserId2_def)
      have "i \<notin> fst ` set (whereUserId1 u s)"
      proof
        assume "i \<in> fst ` set (whereUserId1 u s)"
        then obtain d1 where "(i, d1) \<in> set (chatDocs (chats s))" "cd_userId1 d1 = Some u"
          by (auto simp: whereUserId1_def)
        with m uniq show False by blast
      qed
      moreover have "i \<in> fst ` set (whereUserId2 u s)"
        using m by (force simp: whereUserId2_def)
      ultimately show "i \<in> ?L" by simp
    qed
  qed
qed

text \<open>
  C7.  In a store whose chat documents have distinct ids, let a profile be \<open>userId1\<close> of
  two chat documents and \<open>userId2\<close> of one document that is not among them.  Then
  \<^verbatim>\<open>processChats\<close> delivers a list of length 3 in which no chat id occurs twice, and the
  ids are those of the three threads.
\<close>

theorem processChats_three_threads:
  assumes d: "distinct (map fst (chats s))"
      and sideA: "length (whereUserId1 userId s) = 2"
      and sideB: "length (filter (\<lambda>(i, d). cd_userId1 d \<noteq> Some userId) (whereUserId2 userId s)) = 1"
  shows "\<exists>cs. processChats True userId s = Some cs \<and> length cs = 3 \<and>
           distinct (map chat_id cs) \<and>
           set (map chat_id cs) =
             fst ` set (whereUserId1 userId s) \<union> fst ` set (whereUserId2 userId s)"
proof -
  obtain cs where cs: "processChats True userId s = Some cs"
    by (simp add: processChats_def Let_def)
  have dd: "distinct (map fst (chatDocs (chats s)))"
    by (rule distinct_chatDocs[OF d])
  have d1: "distinct (map fst (whereUserId1 userId s))"
    unfolding whereUserId1_def using dd by (rule distinct_map_filter)
  have d2: "distinct (map fst (filter (\<lambda>(i, d). cd_userId1 d \<noteq> Some userId) (whereUserId2 userId s)))"
    unfolding whereUserId2_def using dd by (intro distinct_map_filter)
  have c1: "card (fst ` set (whereUserId1 userId s)) = 2"
    using distinct_card[OF d1] sideA by simp
  have c2: "card (fst ` set (whereUserId2 userId s) - fst ` set (whereUserId1 userId s)) = 1"
    unfolding only_side2[OF d] using distinct_card[OF d2] sideB by simp
  have "card (set (map chat_id cs)) =
        card (fst ` set (whereUserId1 userId s) \<union> (fst ` set (whereUserId2 userId s) - fst ` set (whereUserId1 userId s)))"
    unfolding processChats_ids_set[OF cs] by simp
  also have "\<dots> = 2 + 1"
    using c1 c2 by (subst card_Un_disjoint) auto
  finally have "length cs = 3"
    using distinct_card[OF processChats_ids_distinct[OF cs]] by simp
  then show ?thesis
    using cs processChats_ids_distinct[OF cs] processChats_ids_set[OF cs] by simp
qed

theorem processChats_three_threads_witness:
  "distinct (map fst (chats store_three)) \<and>
   length (whereUserId1 ''a'' store_three) = 2 \<and>
   length (filter (\<lambda>(i, d). cd_userId1 d \<noteq> Some ''a'') (whereUserId2 ''a'' store_three)) = 1 \<and>
   (\<exists>cs. processChats True ''a'' store_three = Some cs \<and> length cs = 3 \<and>
      map chat_id cs = [''a_d'', ''a_b'', ''a_c''])"
proof -
  have d: "distinct (map fst (chats store_three))"
    by (simp add: store_three_def empty_store_def)
  have a: "length (whereUserId1 ''a'' store_three) = 2"
    by (simp add: whereUserId1_def store_three_def empty_store_def chat_ab_def)
  have b: "length (filter (\<lambda>(i, d). cd_userId1 d \<noteq> Some ''a'') (whereUserId2 ''a'' store_three)) = 1"
    by (simp add: whereUserId2_def store_three_def empty_store_def chat_ab_def)
  have ids: "map chat_id (the (processChats True ''a'' store_three)) = [''a_d'', ''a_b'', ''a_c'']"
    by (simp add: processChats_def whereUserId1_def whereUserId2_def uniqueChats_def
        toChat_def withUserData_def or_zero_def or_string_def or_undefined_def
        store_three_def empty_store_def chat_ab_def Let_def)
  show ?thesis
    using processChats_three_threads [OF d a b] d a b ids by auto
qed

section \<open>Properties of the mutual-like matcher\<close>

lemma ownerLikesLoop_isMatch:
  "isMatch (ownerLikesLoop u ids ls) \<longleftrightarrow>
     (\<exists>l \<in> set ls. ld_ownerId l = Some u \<or> list_includes ids (ld_likedAnimalId l))"
  by (induction ls) auto

lemma ownerLikesLoop_first:
  "isMatch (ownerLikesLoop u ids ls) \<Longrightarrow>
   \<exists>pre l post. ls = pre @ l # post \<and>
      (\<forall>x \<in> set pre. \<not> (ld_ownerId x = Some u \<or> list_includes ids (ld_likedAnimalId x))) \<and>
      (ld_ownerId l = Some u \<or> list_includes ids (ld_likedAnimalId l)) \<and>
      matchedAnimalId (ownerLikesLoop u ids ls) = ld_likedAnimalId l"
proof (induction ls)
  case Nil
  then show ?case by simp
next
  case (Cons a ls)
  show ?case
  proof (cases "ld_ownerId a = Some u \<or> list_includes ids (ld_likedAnimalId a)")
    case True
    then have "a # ls = [] @ a # ls \<and>
      (\<forall>x \<in> set []. \<not> (ld_ownerId x = Some u \<or> list_includes ids (ld_likedAnimalId x))) \<and>
      (ld_ownerId a = Some u \<or> list_includes ids (ld_likedAnimalId a)) \<and>
      matchedAnimalId (ownerLikesLoop u ids (a # ls)) = ld_likedAnimalId a"
      by auto
    then show ?thesis by blast
  next
    case False
    with Cons.prems have "isMatch (ownerLikesLoop u ids ls)" by simp
    from Cons.IH[OF this] obtain pre l post where
      h: "ls = pre @ l # post"
      "\<forall>x \<in> set pre. \<not> (ld_ownerId x = Some u \<or> list_includes ids (ld_likedAnimalId x))"
      "ld_ownerId l = Some u \<or> list_includes ids (ld_likedAnimalId l)"
      "matchedAnimalId (ownerLikesLoop u ids ls) = ld_likedAnimalId l"
      by blast
    have "a # ls = (a # pre) @ l # post \<and>
      (\<forall>x \<in> set (a # pre). \<not> (ld_ownerId x = Some u \<or> list_includes ids (ld_likedAnimalId x))) \<and>
      (ld_ownerId l = Some u \<or> list_includes ids (ld_likedAnimalId l)) \<and>
      matchedAnimalId (ownerLikesLoop u ids (a # ls)) = ld_likedAnimalId l"
      using h False by auto
    then show ?thesis by blast
  qed
qed

text \<open>
  C9.  \<^verbatim>\<open>checkMutualLike\<close> for a liker and the owner of the pet just liked reads the like
  documents whose \<open>likerUserId\<close> is the owner, and it reports a match exactly when one of
  them targets a pet of the liker: its \<open>ownerId\<close> is the liker, or its animal is in the
  liker's list of animals.  When every like of the owner on a listed animal records the
  liker as its owner, that is exactly when some like of the owner has the liker as
  \<open>ownerId\<close>.  The pet that was just liked is not an argument, so the answer does not depend
  on it; the animal reported is the one of a like of the owner.  When the query is
  rejected, no match is reported.
\<close>

theorem checkMutualLike_profile_level:
  "(isMatch (checkMutualLike True liker owner userAnimals s) \<longleftrightarrow>
      (\<exists>(i, d) \<in> set (likes s). ld_likerUserId d = Some owner \<and>
         (ld_ownerId d = Some liker \<or>
          list_includes (map animal_id userAnimals) (ld_likedAnimalId d)))) \<and>
   ((\<forall>(i, d) \<in> set (likes s).
        ld_likerUserId d = Some owner \<and> list_includes (map animal_id userAnimals) (ld_likedAnimalId d)
        \<longrightarrow> ld_ownerId d = Some liker) \<longrightarrow>
    (isMatch (checkMutualLike True liker owner userAnimals s) \<longleftrightarrow>
      (\<exists>(i, d) \<in> set (likes s). ld_likerUserId d = Some owner \<and> ld_ownerId d = Some liker))) \<and>
   (isMatch (checkMutualLike True liker owner userAnimals s) \<longrightarrow>
      (\<exists>(i, d) \<in> set (likes s). ld_likerUserId d = Some owner \<and>
         matchedAnimalId (checkMutualLike True liker owner userAnimals s) = ld_likedAnimalId d)) \<and>
   checkMutualLike False liker owner userAnimals s = \<lparr>isMatch = False, matchedAnimalId = None\<rparr>"
proof -
  let ?ls = "map snd (filter (\<lambda>(i, d). ld_likerUserId d = Some owner) (likes s))"
  let ?ids = "map animal_id userAnimals"
  have c: "checkMutualLike True liker owner userAnimals s = ownerLikesLoop liker ?ids ?ls"
    by (simp add: checkMutualLike_def Let_def)
  have a: "isMatch (checkMutualLike True liker owner userAnimals s) \<longleftrightarrow>
      (\<exists>(i, d) \<in> set (likes s). ld_likerUserId d = Some owner \<and>
         (ld_ownerId d = Some liker \<or> list_includes ?ids (ld_likedAnimalId d)))"
    unfolding c ownerLikesLoop_isMatch by force
  have m: "isMatch (checkMutualLike True liker owner userAnimals s) \<longrightarrow>
      (\<exists>(i, d) \<in> set (likes s). ld_likerUserId d = Some owner \<and>
         matchedAnimalId (checkMutualLike True liker owner userAnimals s) = ld_likedAnimalId d)"
  proof
    assume "isMatch (checkMutualLike True liker owner userAnimals s)"
    then have "isMatch (ownerLikesLoop liker ?ids ?ls)" by (simp add: c)
    from ownerLikesLoop_first[OF this] obtain pre l post where
      h: "?ls = pre @ l # post" "matchedAnimalId (ownerLikesLoop liker ?ids ?ls) = ld_likedAnimalId l"
      by blast
    then have "l \<in> set ?ls" by simp
    then obtain i where "(i, l) \<in> set (likes s)" "ld_likerUserId l = Some owner" by auto
    with h(2) show "\<exists>(i, d) \<in> set (likes s). ld_likerUserId d = Some owner \<and>
         matchedAnimalId (checkMutualLike True liker owner userAnimals s) = ld_likedAnimalId d"
      unfolding c by blast
  qed
  have f: "checkMutualLike False liker owner userAnimals s = \<lparr>isMatch = False, matchedAnimalId = None\<rparr>"
    by (simp add: checkMutualLike_def)
  show ?thesis
    using a m f by blast
qed

theorem checkMutualLike_profile_level_witness:
  "saveLike True 2 ''l2'' ''a'' ''pb'' ''b''
     (snd (saveLike True 1 ''l1'' ''b'' ''pa'' ''a'' empty_store)) = (None, store_liked) \<and>
   checkMutualLike True ''a'' ''b'' [] store_liked =
     \<lparr>isMatch = True, matchedAnimalId = Some ''pa''\<rparr> \<and>
   checkMutualLike True ''a'' ''c'' [] store_liked =
     \<lparr>isMatch = False, matchedAnimalId = None\<rparr>"
proof -
  have h: "\<forall>(i, d) \<in> set (likes store_liked).
        ld_likerUserId d = Some ''b'' \<and> list_includes (map animal_id []) (ld_likedAnimalId d)
        \<longrightarrow> ld_ownerId d = Some ''a''"
    by (simp add: store_liked_def empty_store_def list_includes_def)
  have e: "\<exists>(i, d) \<in> set (likes store_liked). ld_likerUserId d = Some ''b'' \<and> ld_ownerId d = Some ''a''"
    by (simp add: store_liked_def empty_store_def)
  have m: "isMatch (checkMutualLike True ''a'' ''b'' [] store_liked)"
    using checkMutualLike_profile_level [of "''a''" "''b''" "[]" store_liked] h e by blast
  show ?thesis
    using m
    by (simp add: saveLike_def checkMutualLike_def store_liked_def empty_store_def
        list_includes_def)
qed

subsection \<open>Saving a match\<close>

lemma update_fresh: "k \<notin> fst ` set al \<Longrightarrow> AList.update k v al = al @ [(k, v)]"
  by (induction al) auto

text \<open>
  C1, as the code has it.  \<^verbatim>\<open>saveMatch\<close> adds a match document under the id the store
  generates, on every accepted call with match data that has both animals, and whatever
  the collection holds: it derives no key from the pair of profiles and makes no test for
  an existing match.  With a fresh id the collection grows by exactly that document, so
  the pair has one match document more than before.  A rejected call, and a call with
  match data that lacks an animal, write nothing.
\<close>

theorem saveMatch_adds_one:
  "(match_animal1 matchData = None \<or> match_animal2 matchData = None \<longrightarrow>
      saveMatch accepted now newId matchData s = (Some UnsupportedFieldValue, s)) \<and>
   (match_animal1 matchData \<noteq> None \<and> match_animal2 matchData \<noteq> None \<longrightarrow>
      saveMatch False now newId matchData s = (Some StoreRejected, s) \<and>
      (newId \<notin> fst ` set (matches s) \<longrightarrow>
         saveMatch True now newId matchData s =
           (None, s\<lparr>matches := matches s @ [(newId, matchFields now matchData)]\<rparr>) \<and>
         length (matchEdges (match_userId1 matchData) (match_userId2 matchData)
                   (snd (saveMatch True now newId matchData s))) =
           length (matchEdges (match_userId1 matchData) (match_userId2 matchData) s) + 1))"
  by (simp add: saveMatch_def matchFields_def update_fresh matchEdges_def)

theorem saveMatch_adds_one_witness:
  "match_animal1 match_ab = Some pet_a \<and> match_animal2 match_ab = Some pet_b \<and>
   ''m1'' \<notin> fst ` set (matches store_liked) \<and>
   matchEdges ''a'' ''b'' store_liked = [] \<and>
   saveMatch True 3 ''m1'' match_ab store_liked =
     (None, store_liked\<lparr>matches := [(''m1'', matchFields 3 match_ab)]\<rparr>) \<and>
   length (matchEdges ''a'' ''b'' (snd (saveMatch True 3 ''m1'' match_ab store_liked))) = 1 \<and>
   saveMatch False 3 ''m1'' match_ab store_liked = (Some StoreRejected, store_liked) \<and>
   match_animal2 (match_ab\<lparr>match_animal2 := None\<rparr>) = None \<and>
   saveMatch True 3 ''m1'' (match_ab\<lparr>match_animal2 := None\<rparr>) store_liked =
     (Some UnsupportedFieldValue, store_liked)"
proof -
  have p: "match_animal1 match_ab = Some pet_a" "match_animal2 match_ab = Some pet_b"
    by (simp_all add: match_ab_def)
  have f: "''m1'' \<notin> fst ` set (matches store_liked)" "matches store_liked = []"
    by (simp_all add: store_liked_def empty_store_def)
  have e: "matchEdges ''a'' ''b'' store_liked = []"
    by (simp add: matchEdges_def store_liked_def empty_store_def)
  have u: "match_userId1 match_ab = ''a''" "match_userId2 match_ab = ''b''"
    by (simp_all add: match_ab_def)
  have n: "match_animal2 (match_ab\<lparr>match_animal2 := None\<rparr>) = None"
    by simp
  show ?thesis
    using saveMatch_adds_one [of match_ab True 3 "''m1''" store_liked]
      saveMatch_adds_one [of "match_ab\<lparr>match_animal2 := None\<rparr>" True 3 "''m1''" store_liked]
      p f e u n
    by auto
qed

text \<open>
  Two profiles have liked each other's pets and the check reports the match to both.
  When both save it, each with both pets in the match data, or one saves it twice, the
  pair has two match documents.
\<close>

theorem saveMatch_pair_twice_counterexample:
  "isMatch (checkMutualLike True ''a'' ''b'' [pet_a] store_liked) \<and>
   isMatch (checkMutualLike True ''b'' ''a'' [pet_b] store_liked) \<and>
   fst (saveMatch True 3 ''m1'' match_ab store_liked) = None \<and>
   fst (saveMatch True 4 ''m2'' match_ba (snd (saveMatch True 3 ''m1'' match_ab store_liked))) = None \<and>
   length (matchEdges ''a'' ''b''
     (snd (saveMatch True 4 ''m2'' match_ba (snd (saveMatch True 3 ''m1'' match_ab store_liked))))) = 2 \<and>
   fst (saveMatch True 4 ''m2'' match_ab (snd (saveMatch True 3 ''m1'' match_ab store_liked))) = None \<and>
   length (matchEdges ''a'' ''b''
     (snd (saveMatch True 4 ''m2'' match_ab (snd (saveMatch True 3 ''m1'' match_ab store_liked))))) = 2"
  by (simp add: saveMatch_def matchFields_def matchEdges_def checkMutualLike_def store_liked_def empty_store_def
      match_ab_def match_ba_def list_includes_def pet_a_def pet_b_def)


section \<open>Properties of the real-time merge of matches\<close>

subsection \<open>Map operations\<close>

lemma applyOps_Nil [simp]: "applyOps [] m = m"
  by (simp add: applyOps_def)

lemma applyOps_Cons:
  "applyOps (op # ops) m =
     applyOps ops (case snd op of None \<Rightarrow> AList.delete (fst op) m | Some v \<Rightarrow> AList.update (fst op) v m)"
  by (simp add: applyOps_def)

lemma applyOps_append: "applyOps (xs @ ys) m = applyOps ys (applyOps xs m)"
  by (simp add: applyOps_def)

lemma applyOps_untouched:
  "k \<notin> fst ` set ops \<Longrightarrow> map_of (applyOps ops m) k = map_of m k"
  by (induction ops arbitrary: m)
     (auto simp: applyOps_Cons update_conv' delete_conv' split: option.splits)

lemma applyOps_touched:
  "k \<in> fst ` set ops \<Longrightarrow> map_of (applyOps ops m) k = map_of (applyOps ops m') k"
proof (induction ops arbitrary: m m')
  case Nil
  then show ?case by simp
next
  case (Cons op ops)
  show ?case
  proof (cases "k \<in> fst ` set ops")
    case True
    then show ?thesis unfolding applyOps_Cons by (rule Cons.IH)
  next
    case False
    with Cons.prems have k: "k = fst op" by simp
    show ?thesis
      unfolding applyOps_Cons applyOps_untouched[OF False]
      by (simp add: k update_conv' delete_conv' split: option.splits)
  qed
qed

lemma applyOps_twice: "map_of (applyOps ops (applyOps ops m)) = map_of (applyOps ops m)"
proof
  fix k
  show "map_of (applyOps ops (applyOps ops m)) k = map_of (applyOps ops m) k"
  proof (cases "k \<in> fst ` set ops")
    case True
    then show ?thesis by (rule applyOps_touched)
  next
    case False
    then show ?thesis by (simp add: applyOps_untouched)
  qed
qed

lemma applyOps_distinct: "distinct (map fst m) \<Longrightarrow> distinct (map fst (applyOps ops m))"
  by (induction ops arbitrary: m)
     (auto simp: applyOps_Cons distinct_update distinct_delete split: option.splits)

lemma applyOps_entries:
  "(k, v) \<in> set (applyOps ops m) \<Longrightarrow> (k, v) \<in> set m \<or> (k, Some v) \<in> set ops"
proof (induction ops arbitrary: m)
  case Nil
  then show ?case by simp
next
  case (Cons op ops)
  from Cons.prems have
    "(k, v) \<in> set (case snd op of None \<Rightarrow> AList.delete (fst op) m | Some w \<Rightarrow> AList.update (fst op) w m)
     \<or> (k, Some v) \<in> set ops"
    unfolding applyOps_Cons by (rule Cons.IH)
  moreover have "(k, v) \<in> set (AList.update a w m) \<Longrightarrow> (k, v) \<in> set m \<or> (k, v) = (a, w)" for a w
    by (induction m) (auto split: if_splits)
  moreover have "(k, v) \<in> set (AList.delete a m) \<Longrightarrow> (k, v) \<in> set m" for a
    by (simp add: AList.delete_eq)
  ultimately show ?case
    by (cases op) (auto split: option.splits)
qed

subsection \<open>The handlers as map operations\<close>

lemma fold_ops:
  "fold (\<lambda>x m. case snd (f x) of None \<Rightarrow> AList.delete (fst (f x)) m
                               | Some v \<Rightarrow> AList.update (fst (f x)) v m) xs m =
     applyOps (map f xs) m"
  by (simp add: applyOps_def fold_map comp_def)

lemma in_enumerate: "(k, x) \<in> set (enumerate n xs) \<Longrightarrow> x \<in> set xs"
  by (auto simp: in_set_enumerate_eq)

lemma setAll_ops: "setAll t snapshot m = applyOps (setOps t (Snapshot q snapshot)) m"
proof -
  let ?f = "\<lambda>(k, doc). (fst doc, Some (toMatch (t k) (fst doc) (snd doc)))"
  have "(\<lambda>(k, doc) m. AList.update (fst doc) (toMatch (t k) (fst doc) (snd doc)) m) =
        (\<lambda>x m. case snd (?f x) of None \<Rightarrow> AList.delete (fst (?f x)) m
                               | Some v \<Rightarrow> AList.update (fst (?f x)) v m)"
    by (intro ext) (simp add: case_prod_beta)
  then show ?thesis
    unfolding setAll_def setOps.simps by (simp only: fold_ops)
qed

lemma changes_ops:
  "fold (\<lambda>(k, change) m. applyChange (t k) change m) (enumerate 0 (docChanges snapshot)) m =
     applyOps (changeOps t (Snapshot q snapshot)) m"
proof -
  have "(\<lambda>(k, change) m. applyChange (t k) change m) =
        (\<lambda>kc m. case snd (changeOp t kc) of None \<Rightarrow> AList.delete (fst (changeOp t kc)) m
                               | Some v \<Rightarrow> AList.update (fst (changeOp t kc)) v m)"
    by (intro ext) (simp add: applyChange_def changeOp_def case_prod_beta)
  then show ?thesis
    unfolding changeOps.simps by (simp only: fold_ops)
qed

lemma enumerate_map: "enumerate n (map f xs) = map (\<lambda>(k, x). (k, f x)) (enumerate n xs)"
  by (induction xs arbitrary: n) simp_all

lemma listed_ops:
  "docChanges snapshot = allAdded (docs snapshot) \<Longrightarrow>
   changeOps t (Snapshot q snapshot) = setOps t (Snapshot q snapshot)"
  by (simp add: allAdded_def changeOp_def enumerate_map case_prod_beta)

subsection \<open>Events handled after the first loads\<close>

lemma replay_Cons: "replay_at u t (e # es) st = replay_at u t es (onEvent u t e st)"
  by (simp add: replay_at_def)

lemma replay_append: "replay_at u t (xs @ ys) st = replay_at u t ys (replay_at u t xs st)"
  by (simp add: replay_at_def)

lemma onEvent_flag1: "\<not> isFirstLoad1 st \<Longrightarrow> \<not> isFirstLoad1 (onEvent u t e st)"
  by (induction u t e st rule: onEvent.induct) (simp_all add: Let_def)

lemma onEvent_flag2: "\<not> isFirstLoad2 st \<Longrightarrow> \<not> isFirstLoad2 (onEvent u t e st)"
  by (induction u t e st rule: onEvent.induct) (simp_all add: Let_def)

lemma replay_flag1: "\<not> isFirstLoad1 st \<Longrightarrow> \<not> isFirstLoad1 (replay_at u t es st)"
  by (induction es arbitrary: st) (simp_all add: replay_at_def onEvent_flag1)

lemma replay_flag2: "\<not> isFirstLoad2 st \<Longrightarrow> \<not> isFirstLoad2 (replay_at u t es st)"
  by (induction es arbitrary: st) (simp_all add: replay_at_def onEvent_flag2)

lemma replay_clears1: "Snapshot UserId1 sn \<in> set es \<Longrightarrow> \<not> isFirstLoad1 (replay_at u t es st)"
proof (induction es arbitrary: st)
  case Nil
  then show ?case by simp
next
  case (Cons e es)
  show ?case
  proof (cases "e = Snapshot UserId1 sn")
    case True
    have "\<not> isFirstLoad1 (onEvent u t e st)" by (simp add: True Let_def)
    then show ?thesis unfolding replay_Cons by (rule replay_flag1)
  next
    case False
    with Cons.prems have "Snapshot UserId1 sn \<in> set es" by simp
    then show ?thesis unfolding replay_Cons by (rule Cons.IH)
  qed
qed

lemma replay_clears2: "Snapshot UserId2 sn \<in> set es \<Longrightarrow> \<not> isFirstLoad2 (replay_at u t es st)"
proof (induction es arbitrary: st)
  case Nil
  then show ?case by simp
next
  case (Cons e es)
  show ?case
  proof (cases "e = Snapshot UserId2 sn")
    case True
    have "\<not> isFirstLoad2 (onEvent u t e st)" by (simp add: True Let_def)
    then show ?thesis unfolding replay_Cons by (rule replay_flag2)
  next
    case False
    with Cons.prems have "Snapshot UserId2 sn \<in> set es" by simp
    then show ?thesis unfolding replay_Cons by (rule Cons.IH)
  qed
qed

lemma onEvent_changes:
  assumes "\<And>sn. e = Snapshot UserId1 sn \<Longrightarrow> \<not> isFirstLoad1 st"
      and "\<And>sn. e = Snapshot UserId2 sn \<Longrightarrow> \<not> isFirstLoad2 st"
  shows "matchesMap (onEvent u t e st) = applyOps (changeOps t e) (matchesMap st)"
proof (cases e)
  case (Snapshot q sn)
  show ?thesis
  proof (cases q)
    case UserId1
    with Snapshot assms(1) show ?thesis
      by (simp add: Let_def handleSnapshot_def changes_ops[where q=UserId1])
  next
    case UserId2
    with Snapshot assms(2) show ?thesis
      by (simp add: Let_def handleSnapshot_def changes_ops[where q=UserId2])
  qed
next
  case (ListenError q)
  then show ?thesis by simp
qed

lemma replay_changes:
  assumes "\<And>sn. Snapshot UserId1 sn \<in> set es \<Longrightarrow> \<not> isFirstLoad1 st"
      and "\<And>sn. Snapshot UserId2 sn \<in> set es \<Longrightarrow> \<not> isFirstLoad2 st"
  shows "matchesMap (replay_at u t es st) = applyOps (concat (map (changeOps t) es)) (matchesMap st)"
  using assms
proof (induction es arbitrary: st)
  case Nil
  then show ?case by (simp add: replay_at_def)
next
  case (Cons e es)
  have step: "matchesMap (onEvent u t e st) = applyOps (changeOps t e) (matchesMap st)"
    by (rule onEvent_changes) (use Cons.prems in auto)
  have "matchesMap (replay_at u t es (onEvent u t e st)) =
        applyOps (concat (map (changeOps t) es)) (matchesMap (onEvent u t e st))"
  proof (rule Cons.IH)
    fix sn assume "Snapshot UserId1 sn \<in> set es"
    then have "\<not> isFirstLoad1 st" using Cons.prems(1) by auto
    then show "\<not> isFirstLoad1 (onEvent u t e st)" by (rule onEvent_flag1)
  next
    fix sn assume "Snapshot UserId2 sn \<in> set es"
    then have "\<not> isFirstLoad2 st" using Cons.prems(2) by auto
    then show "\<not> isFirstLoad2 (onEvent u t e st)" by (rule onEvent_flag2)
  qed
  then show ?case
    unfolding replay_Cons by (simp add: step applyOps_append)
qed

subsection \<open>Events handled from the start\<close>

lemma changeOps_role:
  assumes "oneRole u (Snapshot q sn)" and "(k, Some v) \<in> set (changeOps t (Snapshot q sn))"
  shows "(q = UserId1 \<longrightarrow> match_userId2 v \<noteq> u) \<and> (q = UserId2 \<longrightarrow> match_userId1 v \<noteq> u)"
  using assms
  by (cases q)
     (auto simp: list_all_iff changeOp_def otherParticipant_def toMatch_def
        dest!: in_enumerate split: if_splits)

lemma setOps_keys:
  "(k, ov) \<in> set (setOps t (Snapshot q sn)) \<Longrightarrow> k \<in> set (map fst (docs sn))"
  by (auto dest!: in_enumerate)

lemma first_load_keeps_all:
  assumes old: "\<forall>(k, m) \<in> set entries.
            (q = UserId1 \<longrightarrow> match_userId1 m \<noteq> u) \<and> (q = UserId2 \<longrightarrow> match_userId2 m \<noteq> u)"
  shows "handleSnapshot u t sn True q entries = applyOps (setOps t (Snapshot q sn)) entries"
proof -
  have "\<not> staleEntry u q (set (map fst (docs sn))) e"
    if e: "e \<in> set (applyOps (setOps t (Snapshot q sn)) entries)" for e
  proof -
    obtain k v where kv: "e = (k, v)" by (cases e)
    from e kv applyOps_entries[of k v "setOps t (Snapshot q sn)" entries]
    consider "(k, v) \<in> set entries" | "(k, Some v) \<in> set (setOps t (Snapshot q sn))" by blast
    then show ?thesis
    proof cases
      case 1
      with old show ?thesis by (cases q) (auto simp: staleEntry_def kv)
    next
      case 2
      then have "k \<in> set (map fst (docs sn))" by (rule setOps_keys)
      then show ?thesis by (simp add: staleEntry_def kv)
    qed
  qed
  then have keep: "filter (\<lambda>e. \<not> staleEntry u q (set (map fst (docs sn))) e)
               (applyOps (setOps t (Snapshot q sn)) entries) =
             applyOps (setOps t (Snapshot q sn)) entries"
    by (simp only: filter_id_conv) blast
  have "handleSnapshot u t sn True q entries =
        filter (\<lambda>e. \<not> staleEntry u q (set (map fst (docs sn))) e) (setAll t sn entries)"
    by (simp add: handleSnapshot_def Let_def setAll_def)
  also have "\<dots> = applyOps (setOps t (Snapshot q sn)) entries"
    unfolding setAll_ops[where q=q] by (rule keep)
  finally show ?thesis .
qed

lemma onEvent_first:
  assumes inv1: "isFirstLoad1 st \<longrightarrow> (\<forall>(k, m) \<in> set (matchesMap st). match_userId1 m \<noteq> u)"
      and inv2: "isFirstLoad2 st \<longrightarrow> (\<forall>(k, m) \<in> set (matchesMap st). match_userId2 m \<noteq> u)"
      and role: "oneRole u e"
      and listed: "firstSnapshotsListed (isFirstLoad1 st) (isFirstLoad2 st) [e]"
  shows "matchesMap (onEvent u t e st) = applyOps (changeOps t e) (matchesMap st)"
proof (cases e)
  case (ListenError q)
  then show ?thesis by simp
next
  case (Snapshot q sn)
  show ?thesis
  proof (cases q)
    case UserId1
    show ?thesis
    proof (cases "isFirstLoad1 st")
      case True
      have l: "docChanges sn = allAdded (docs sn)"
        using listed True by (simp add: Snapshot UserId1)
      have "handleSnapshot u t sn True UserId1 (matchesMap st) =
            applyOps (setOps t (Snapshot UserId1 sn)) (matchesMap st)"
        by (rule first_load_keeps_all) (use inv1 True in auto)
      then show ?thesis
        by (simp add: Snapshot UserId1 True Let_def listed_ops[OF l] del: setOps.simps changeOps.simps)
    next
      case False
      then show ?thesis
        by (intro onEvent_changes) (simp_all add: Snapshot UserId1)
    qed
  next
    case UserId2
    show ?thesis
    proof (cases "isFirstLoad2 st")
      case True
      have l: "docChanges sn = allAdded (docs sn)"
        using listed True by (simp add: Snapshot UserId2)
      have "handleSnapshot u t sn True UserId2 (matchesMap st) =
            applyOps (setOps t (Snapshot UserId2 sn)) (matchesMap st)"
        by (rule first_load_keeps_all) (use inv2 True in auto)
      then show ?thesis
        by (simp add: Snapshot UserId2 True Let_def listed_ops[OF l] del: setOps.simps changeOps.simps)
    next
      case False
      then show ?thesis
        by (intro onEvent_changes) (simp_all add: Snapshot UserId2)
    qed
  qed
qed

lemma listed_Cons:
  "firstSnapshotsListed f1 f2 (e # es) \<Longrightarrow>
   firstSnapshotsListed f1 f2 [e] \<and>
   firstSnapshotsListed (isFirstLoad1 (onEvent u t e (st\<lparr>isFirstLoad1 := f1, isFirstLoad2 := f2\<rparr>)))
     (isFirstLoad2 (onEvent u t e (st\<lparr>isFirstLoad1 := f1, isFirstLoad2 := f2\<rparr>))) es"
proof (cases e)
  case (Snapshot q sn)
  assume "firstSnapshotsListed f1 f2 (e # es)"
  then show ?thesis
    unfolding Snapshot by (cases q) (auto simp: Let_def)
next
  case (ListenError q)
  assume "firstSnapshotsListed f1 f2 (e # es)"
  then show ?thesis
    unfolding ListenError by simp
qed

lemma onEvent_inv:
  assumes inv1: "isFirstLoad1 st \<longrightarrow> (\<forall>(k, m) \<in> set (matchesMap st). match_userId1 m \<noteq> u)"
      and inv2: "isFirstLoad2 st \<longrightarrow> (\<forall>(k, m) \<in> set (matchesMap st). match_userId2 m \<noteq> u)"
      and role: "oneRole u e"
      and listed: "firstSnapshotsListed (isFirstLoad1 st) (isFirstLoad2 st) [e]"
  shows "(isFirstLoad1 (onEvent u t e st) \<longrightarrow>
            (\<forall>(k, m) \<in> set (matchesMap (onEvent u t e st)). match_userId1 m \<noteq> u)) \<and>
         (isFirstLoad2 (onEvent u t e st) \<longrightarrow>
            (\<forall>(k, m) \<in> set (matchesMap (onEvent u t e st)). match_userId2 m \<noteq> u))"
proof -
  have mm: "matchesMap (onEvent u t e st) = applyOps (changeOps t e) (matchesMap st)"
    by (rule onEvent_first[OF inv1 inv2 role listed])
  show ?thesis
  proof (cases e)
    case (ListenError q)
    then show ?thesis using inv1 inv2 by simp
  next
    case (Snapshot q sn)
    have ent: "(k, v) \<in> set (matchesMap st) \<or> (k, Some v) \<in> set (changeOps t (Snapshot q sn))"
      if "(k, v) \<in> set (matchesMap (onEvent u t e st))" for k v
    proof -
      from that have "(k, v) \<in> set (applyOps (changeOps t e) (matchesMap st))"
        by (simp only: mm)
      then have "(k, v) \<in> set (matchesMap st) \<or> (k, Some v) \<in> set (changeOps t e)"
        by (rule applyOps_entries)
      then show ?thesis by (simp only: Snapshot)
    qed
    have r: "(q = UserId1 \<longrightarrow> match_userId2 v \<noteq> u) \<and> (q = UserId2 \<longrightarrow> match_userId1 v \<noteq> u)"
      if "(k, Some v) \<in> set (changeOps t (Snapshot q sn))" for k v
    proof -
      from role have "oneRole u (Snapshot q sn)" by (simp only: Snapshot)
      from changeOps_role[OF this that] show ?thesis .
    qed
    show ?thesis
    proof (cases q)
      case UserId1
      have f: "\<not> isFirstLoad1 (onEvent u t e st)" "isFirstLoad2 (onEvent u t e st) = isFirstLoad2 st"
        by (simp_all add: Snapshot UserId1 Let_def)
      show ?thesis
        using f inv2 ent r UserId1 by fastforce
    next
      case UserId2
      have f: "\<not> isFirstLoad2 (onEvent u t e st)" "isFirstLoad1 (onEvent u t e st) = isFirstLoad1 st"
        by (simp_all add: Snapshot UserId2 Let_def)
      show ?thesis
        using f inv1 ent r UserId2 by fastforce
    qed
  qed
qed

lemma replay_first:
  assumes "isFirstLoad1 st \<longrightarrow> (\<forall>(k, m) \<in> set (matchesMap st). match_userId1 m \<noteq> u)"
      and "isFirstLoad2 st \<longrightarrow> (\<forall>(k, m) \<in> set (matchesMap st). match_userId2 m \<noteq> u)"
      and "list_all (oneRole u) es"
      and "firstSnapshotsListed (isFirstLoad1 st) (isFirstLoad2 st) es"
  shows "matchesMap (replay_at u t es st) = applyOps (concat (map (changeOps t) es)) (matchesMap st)"
  using assms
proof (induction es arbitrary: st)
  case Nil
  then show ?case by (simp add: replay_at_def)
next
  case (Cons e es)
  have role: "oneRole u e" and roles: "list_all (oneRole u) es"
    using Cons.prems(3) by simp_all
  have l: "firstSnapshotsListed (isFirstLoad1 st) (isFirstLoad2 st) [e]"
    and ls: "firstSnapshotsListed (isFirstLoad1 (onEvent u t e st)) (isFirstLoad2 (onEvent u t e st)) es"
    using listed_Cons[OF Cons.prems(4), where u=u and t=t and st=st] by simp_all
  have step: "matchesMap (onEvent u t e st) = applyOps (changeOps t e) (matchesMap st)"
    by (rule onEvent_first[OF Cons.prems(1,2) role l])
  have inv: "(isFirstLoad1 (onEvent u t e st) \<longrightarrow>
            (\<forall>(k, m) \<in> set (matchesMap (onEvent u t e st)). match_userId1 m \<noteq> u)) \<and>
         (isFirstLoad2 (onEvent u t e st) \<longrightarrow>
            (\<forall>(k, m) \<in> set (matchesMap (onEvent u t e st)). match_userId2 m \<noteq> u))"
    by (rule onEvent_inv[OF Cons.prems(1,2) role l])
  have "matchesMap (replay_at u t es (onEvent u t e st)) =
        applyOps (concat (map (changeOps t) es)) (matchesMap (onEvent u t e st))"
    using inv roles ls by (intro Cons.IH) simp_all
  then show ?case
    unfolding replay_Cons by (simp add: step applyOps_append)
qed

subsection \<open>The delivered list\<close>

lemma mset_of_map_of:
  assumes "distinct (map fst a)" "distinct (map fst b)" "map_of a = map_of b"
  shows "mset a = mset b"
proof -
  have "set a = set b"
  proof (rule set_eqI)
    fix p :: "'a \<times> 'b"
    obtain k v where p: "p = (k, v)" by (cases p)
    have "p \<in> set a \<longleftrightarrow> map_of a k = Some v" using assms(1) by (simp add: p)
    also have "\<dots> \<longleftrightarrow> map_of b k = Some v" by (simp add: assms(3))
    also have "\<dots> \<longleftrightarrow> p \<in> set b" using assms(2) by (simp add: p)
    finally show "p \<in> set a \<longleftrightarrow> p \<in> set b" .
  qed
  moreover have "distinct a" "distinct b"
    using assms(1,2) by (simp_all add: distinct_map)
  ultimately show ?thesis
    by (simp add: set_eq_iff_mset_eq_distinct)
qed

lemma processMatches_mset:
  assumes "distinct (map fst a)" "distinct (map fst b)" "map_of a = map_of b"
  shows "mset (processMatches a) = mset (processMatches b)"
proof -
  have "mset (map snd a) = mset (map snd b)"
    using mset_of_map_of[OF assms] by (metis mset_map)
  then show ?thesis by (simp add: processMatches_def)
qed

lemma handleSnapshot_distinct:
  assumes "distinct (map fst m)"
  shows "distinct (map fst (handleSnapshot u t sn first q m))"
proof (cases first)
  case True
  have "distinct (map fst (setAll t sn m))"
    unfolding setAll_ops[where q=q] using assms by (rule applyOps_distinct)
  then show ?thesis
    by (simp add: handleSnapshot_def True Let_def setAll_def distinct_map_filter)
next
  case False
  have "distinct (map fst (fold (\<lambda>(k, change) m. applyChange (t k) change m) (enumerate 0 (docChanges sn)) m))"
    unfolding changes_ops[where q=q] using assms by (rule applyOps_distinct)
  then show ?thesis
    by (simp add: handleSnapshot_def False)
qed

lemma onEvent_distinct:
  "distinct (map fst (matchesMap st)) \<Longrightarrow> distinct (map fst (matchesMap (onEvent u t e st)))"
  by (induction u t e st rule: onEvent.induct) (simp_all add: Let_def handleSnapshot_distinct)

lemma replay_distinct:
  "distinct (map fst (matchesMap st)) \<Longrightarrow> distinct (map fst (matchesMap (replay_at u t es st)))"
  by (induction es arbitrary: st) (simp_all add: replay_at_def onEvent_distinct)

lemma onEvent_delivered:
  "delivered (onEvent u t e st) =
     (case e of Snapshot q sn \<Rightarrow> processMatches (matchesMap (onEvent u t e st)) | ListenError q \<Rightarrow> [])"
  by (induction u t e st rule: onEvent.induct) (simp_all add: Let_def)

lemma replay_snoc: "replay_at u t (es @ [e]) st = onEvent u t e (replay_at u t es st)"
  by (simp add: replay_at_def)

lemma replay_delivered:
  "delivered (replay_at u t (es @ [e]) st) =
     (case e of Snapshot q sn \<Rightarrow> processMatches (matchesMap (replay_at u t (es @ [e]) st))
              | ListenError q \<Rightarrow> [])"
  unfolding replay_snoc by (rule onEvent_delivered)

subsection \<open>The copy without first-load flags\<close>

lemma replay_plain_Cons: "replay_plain_at t (e # es) st = replay_plain_at t es (onEvent_plain t e st)"
  by (simp add: replay_plain_at_def)

lemma replay_plain_append: "replay_plain_at t (xs @ ys) st = replay_plain_at t ys (replay_plain_at t xs st)"
  by (simp add: replay_plain_at_def)

lemma onEvent_plain_ops: "fst (onEvent_plain t e st) = applyOps (setOps t e) (fst st)"
proof (cases e)
  case (Snapshot q sn)
  then show ?thesis
    by (simp add: Let_def setAll_ops[where q=q] del: setOps.simps)
next
  case (ListenError q)
  then show ?thesis by simp
qed

lemma replay_plain_ops:
  "fst (replay_plain_at t es st) = applyOps (concat (map (setOps t) es)) (fst st)"
proof (induction es arbitrary: st)
  case Nil
  then show ?case by (simp add: replay_plain_at_def)
next
  case (Cons e es)
  show ?case
    unfolding replay_plain_Cons Cons.IH onEvent_plain_ops
    by (simp add: applyOps_append)
qed

lemma replay_plain_delivered:
  "snd (replay_plain_at t (es @ [e]) st) =
     (case e of Snapshot q sn \<Rightarrow> processMatches (fst (replay_plain_at t (es @ [e]) st))
              | ListenError q \<Rightarrow> [])"
  by (cases e) (simp_all add: replay_plain_at_def Let_def)

subsection \<open>The clock of a run\<close>

lemma replay_step:
  "replay u clock (e # es) st = replay u (\<lambda>n. clock (Suc n)) es (onEvent u (clock 0) e st)"
proof -
  have "enumerate (Suc 0) es = map (\<lambda>(n, x). (Suc n, x)) (enumerate 0 es)"
    by (simp add: enumerate_Suc_eq apfst_def map_prod_def)
  then show ?thesis
    by (simp add: replay_def fold_map comp_def split_def)
qed

lemma replay_plain_step:
  "replay_plain clock (e # es) st =
     replay_plain (\<lambda>n. clock (Suc n)) es (onEvent_plain (clock 0) e st)"
proof -
  have "enumerate (Suc 0) es = map (\<lambda>(n, x). (Suc n, x)) (enumerate 0 es)"
    by (simp add: enumerate_Suc_eq apfst_def map_prod_def)
  then show ?thesis
    by (simp add: replay_plain_def fold_map comp_def split_def)
qed

lemma toMatch_created: "md_createdAt d \<noteq> None \<Longrightarrow> toMatch n i d = toMatch n' i d"
  by (auto simp: toMatch_def)

lemma setOps_created: "withCreatedAt e \<Longrightarrow> setOps c e = setOps c' e"
  by (cases e)
     (fastforce simp: list_all_iff toMatch_def dest!: in_enumerate split: option.splits)+

lemma changeOps_created: "withCreatedAt e \<Longrightarrow> changeOps c e = changeOps c' e"
  by (cases e)
     (fastforce simp: list_all_iff changeOp_def toMatch_def dest!: in_enumerate split: option.splits)+

lemma handleSnapshot_ops:
  "handleSnapshot u c sn first q m =
     (if first then filter (\<lambda>entry. \<not> staleEntry u q (set (map fst (docs sn))) entry)
                      (applyOps (setOps c (Snapshot q sn)) m)
      else applyOps (changeOps c (Snapshot q sn)) m)"
  using setAll_ops[of c sn m q] changes_ops[of c sn m q]
  by (simp add: handleSnapshot_def Let_def setAll_def del: setOps.simps changeOps.simps)

lemma onEvent_created: "withCreatedAt e \<Longrightarrow> onEvent u c e st = onEvent u c' e st"
proof (cases e)
  case (Snapshot q sn)
  assume "withCreatedAt e"
  then have "setOps c (Snapshot q sn) = setOps c' (Snapshot q sn)"
        and "changeOps c (Snapshot q sn) = changeOps c' (Snapshot q sn)"
    unfolding Snapshot by (rule setOps_created, rule changeOps_created)
  then have "handleSnapshot u c sn first q m = handleSnapshot u c' sn first q m" for first m
    by (simp only: handleSnapshot_ops)
  then show ?thesis
    unfolding Snapshot by (cases q) (simp_all add: Let_def)
next
  case (ListenError q)
  then show ?thesis by simp
qed

lemma onEvent_plain_created: "withCreatedAt e \<Longrightarrow> onEvent_plain c e st = onEvent_plain c' e st"
proof (cases e)
  case (Snapshot q sn)
  assume "withCreatedAt e"
  then have "setOps c (Snapshot q sn) = setOps c' (Snapshot q sn)"
    unfolding Snapshot by (rule setOps_created)
  then have "setAll c sn m = setAll c' sn m" for m
    by (simp only: setAll_ops[where q=q])
  then show ?thesis
    unfolding Snapshot by (simp add: Let_def)
next
  case (ListenError q)
  then show ?thesis by simp
qed

lemma replay_created:
  "list_all withCreatedAt es \<Longrightarrow> replay u clock es st = replay_at u t es st"
proof (induction es arbitrary: clock st)
  case Nil
  then show ?case by (simp add: replay_def replay_at_def)
next
  case (Cons e es)
  then have e: "withCreatedAt e" and es: "list_all withCreatedAt es" by simp_all
  show ?case
    unfolding replay_step Cons.IH[OF es] onEvent_created[OF e, of u "clock 0" st t]
    by (simp add: replay_at_def)
qed

lemma replay_plain_created:
  "list_all withCreatedAt es \<Longrightarrow> replay_plain clock es st = replay_plain_at t es st"
proof (induction es arbitrary: clock st)
  case Nil
  then show ?case by (simp add: replay_plain_def replay_plain_at_def)
next
  case (Cons e es)
  then have e: "withCreatedAt e" and es: "list_all withCreatedAt es" by simp_all
  show ?case
    unfolding replay_plain_step Cons.IH[OF es] onEvent_plain_created[OF e, of "clock 0" st t]
    by (simp add: replay_plain_at_def)
qed


subsection \<open>Maps up to the times\<close>

lemma untimed_update: "untimed (AList.update k v m) = AList.update k (withoutTime v) (untimed m)"
  by (induction m) (auto simp: untimed_def)

lemma untimed_delete: "untimed (AList.delete k m) = AList.delete k (untimed m)"
  by (induction m) (auto simp: untimed_def)

lemma untimed_applyOps: "untimed (applyOps ops m) = applyOps (untimedOps ops) (untimed m)"
proof (induction ops arbitrary: m)
  case Nil
  then show ?case by (simp add: untimedOps_def)
next
  case (Cons op ops)
  obtain k ov where op: "op = (k, ov)" by (cases op)
  have "untimedOps (op # ops) = (k, map_option withoutTime ov) # untimedOps ops"
    by (simp add: untimedOps_def op)
  then show ?case
    by (cases ov) (simp_all add: applyOps_Cons Cons.IH op untimed_update untimed_delete)
qed

lemma untimed_stale:
  "untimed (filter (\<lambda>entry. \<not> staleEntry u q ids entry) m) =
     filter (\<lambda>entry. \<not> staleEntry u q ids entry) (untimed m)"
  by (induction m) (auto simp: untimed_def staleEntry_def withoutTime_def)

lemma withoutTime_toMatch: "withoutTime (toMatch n i d) = withoutTime (toMatch n' i d)"
  by (simp add: withoutTime_def toMatch_def)

lemma untimedOps_setOps: "untimedOps (setOps c e) = untimedOps (setOps c' e)"
  by (cases e) (simp_all add: untimedOps_def split_def withoutTime_toMatch[of "c _" _ _ "c' _"])

lemma untimedOps_changeOps: "untimedOps (changeOps c e) = untimedOps (changeOps c' e)"
  by (cases e)
     (simp_all add: untimedOps_def split_def changeOp_def withoutTime_toMatch[of "c _" _ _ "c' _"])

lemma handleSnapshot_untimed:
  assumes "untimed m = untimed m'"
  shows "untimed (handleSnapshot u c sn first q m) = untimed (handleSnapshot u c' sn first q m')"
  unfolding handleSnapshot_ops
  using assms untimedOps_setOps[of c "Snapshot q sn" c'] untimedOps_changeOps[of c "Snapshot q sn" c']
  by (simp add: untimed_stale untimed_applyOps del: setOps.simps changeOps.simps)

lemma map_of_untimed: "map_of (untimed m) = map_option withoutTime \<circ> map_of m"
  unfolding untimed_def by (rule map_of_map)

lemma keys_untimed: "map fst (untimed m) = map fst m"
  by (simp add: untimed_def split_def)

lemma onEvent_untimed:
  assumes "untimed (matchesMap st) = untimed (matchesMap st')"
      and "isFirstLoad1 st = isFirstLoad1 st'" and "isFirstLoad2 st = isFirstLoad2 st'"
  shows "untimed (matchesMap (onEvent u c e st)) = untimed (matchesMap (onEvent u c' e st')) \<and>
         isFirstLoad1 (onEvent u c e st) = isFirstLoad1 (onEvent u c' e st') \<and>
         isFirstLoad2 (onEvent u c e st) = isFirstLoad2 (onEvent u c' e st')"
proof (cases e)
  case (Snapshot q sn)
  show ?thesis
    unfolding Snapshot using assms
    by (cases q) (simp_all add: Let_def handleSnapshot_untimed[OF assms(1), of u c sn _ _ c'])
next
  case (ListenError q)
  then show ?thesis using assms by simp
qed

lemma replay_untimed:
  assumes "untimed (matchesMap st) = untimed (matchesMap st')"
      and "isFirstLoad1 st = isFirstLoad1 st'" and "isFirstLoad2 st = isFirstLoad2 st'"
  shows "untimed (matchesMap (replay u clock es st)) = untimed (matchesMap (replay_at u t es st'))"
  using assms
proof (induction es arbitrary: clock st st')
  case Nil
  then show ?case by (simp add: replay_def replay_at_def)
next
  case (Cons e es)
  have "replay_at u t (e # es) st' = replay_at u t es (onEvent u t e st')"
    by (simp add: replay_at_def)
  moreover have "untimed (matchesMap (replay u (\<lambda>n. clock (Suc n)) es (onEvent u (clock 0) e st))) =
        untimed (matchesMap (replay_at u t es (onEvent u t e st')))"
    using onEvent_untimed[OF Cons.prems, of u "clock 0" e t] by (intro Cons.IH) simp_all
  ultimately show ?case
    unfolding replay_step by simp
qed

lemma onEvent_plain_untimed:
  assumes "untimed (fst st) = untimed (fst st')"
  shows "untimed (fst (onEvent_plain c e st)) = untimed (fst (onEvent_plain c' e st'))"
proof (cases e)
  case (Snapshot q sn)
  show ?thesis
    unfolding Snapshot using assms untimedOps_setOps[of c "Snapshot q sn" c']
    by (simp add: Let_def setAll_ops[where q=q] untimed_applyOps del: setOps.simps)
next
  case (ListenError q)
  then show ?thesis using assms by simp
qed

lemma replay_plain_untimed:
  assumes "untimed (fst st) = untimed (fst st')"
  shows "untimed (fst (replay_plain clock es st)) = untimed (fst (replay_plain_at t es st'))"
  using assms
proof (induction es arbitrary: clock st st')
  case Nil
  then show ?case by (simp add: replay_plain_def replay_plain_at_def)
next
  case (Cons e es)
  have "replay_plain_at t (e # es) st' = replay_plain_at t es (onEvent_plain t e st')"
    by (simp add: replay_plain_at_def)
  moreover have "untimed (fst (replay_plain (\<lambda>n. clock (Suc n)) es (onEvent_plain (clock 0) e st))) =
        untimed (fst (replay_plain_at t es (onEvent_plain t e st')))"
    using onEvent_plain_untimed[OF Cons.prems, of "clock 0" e t] by (intro Cons.IH)
  ultimately show ?case
    unfolding replay_plain_step by simp
qed

subsection \<open>The delivered list of a replay\<close>

lemma replay_keys_distinct:
  "distinct (map fst (matchesMap st)) \<Longrightarrow> distinct (map fst (matchesMap (replay u clock es st)))"
proof (induction es arbitrary: clock st)
  case Nil
  then show ?case by (simp add: replay_def)
next
  case (Cons e es)
  show ?case
    unfolding replay_step by (intro Cons.IH onEvent_distinct Cons.prems)
qed

lemma replay_last_delivered:
  "es \<noteq> [] \<Longrightarrow>
   delivered (replay u clock es st) =
     (case last es of Snapshot q sn \<Rightarrow> processMatches (matchesMap (replay u clock es st))
                    | ListenError q \<Rightarrow> [])"
proof (induction es arbitrary: clock st)
  case Nil
  then show ?case by simp
next
  case (Cons e es)
  show ?case
  proof (cases "es = []")
    case True
    then show ?thesis
      unfolding replay_step by (cases e) (simp_all add: replay_def onEvent_delivered)
  next
    case False
    then show ?thesis
      unfolding replay_step by (simp add: Cons.IH)
  qed
qed

lemma plain_keys_distinct: "distinct (map fst (fst st)) \<Longrightarrow> distinct (map fst (fst (onEvent_plain c e st)))"
  by (cases e) (simp_all add: Let_def setAll_ops[where q=UserId1] applyOps_distinct del: setOps.simps)

lemma replay_plain_keys_distinct:
  "distinct (map fst (fst st)) \<Longrightarrow> distinct (map fst (fst (replay_plain clock es st)))"
proof (induction es arbitrary: clock st)
  case Nil
  then show ?case by (simp add: replay_plain_def)
next
  case (Cons e es)
  show ?case
    unfolding replay_plain_step by (intro Cons.IH plain_keys_distinct Cons.prems)
qed

lemma replay_plain_last_delivered:
  "es \<noteq> [] \<Longrightarrow>
   snd (replay_plain clock es st) =
     (case last es of Snapshot q sn \<Rightarrow> processMatches (fst (replay_plain clock es st))
                    | ListenError q \<Rightarrow> [])"
proof (induction es arbitrary: clock st)
  case Nil
  then show ?case by simp
next
  case (Cons e es)
  show ?case
  proof (cases "es = []")
    case True
    then show ?thesis
      unfolding replay_plain_step by (cases e) (simp_all add: replay_plain_def Let_def)
  next
    case False
    then show ?thesis
      unfolding replay_plain_step by (simp add: Cons.IH)
  qed
qed

lemma untimed_delivered:
  assumes "distinct (map fst a)" "distinct (map fst b)" "map_of (untimed a) = map_of (untimed b)"
  shows "mset (map withoutTime (processMatches a)) = mset (map withoutTime (processMatches b))"
proof -
  have "mset (untimed a) = mset (untimed b)"
    using assms by (intro mset_of_map_of) (simp_all add: keys_untimed)
  then have "mset (map snd (untimed a)) = mset (map snd (untimed b))"
    by (metis mset_map)
  moreover have "map snd (untimed m) = map withoutTime (map snd m)" for m
    by (simp add: untimed_def split_def)
  ultimately have "image_mset withoutTime (mset (map snd a)) = image_mset withoutTime (mset (map snd b))"
    by (simp add: multiset.map_comp)
  then show ?thesis by (simp add: processMatches_def)
qed

subsection \<open>Replaying a sequence of events twice\<close>

lemma replay_twice_flagged:
  assumes roles: "list_all (oneRole u) es" and listed: "firstSnapshotsListed True True es"
  shows "map_of (matchesMap (replay_at u t (es @ es) getUserMatchesRealtime)) =
         map_of (matchesMap (replay_at u t es getUserMatchesRealtime))"
    and "mset (delivered (replay_at u t (es @ es) getUserMatchesRealtime)) =
         mset (delivered (replay_at u t es getUserMatchesRealtime))"
proof -
  let ?init = getUserMatchesRealtime
  let ?ops = "concat (map (changeOps t) es)"
  have once: "matchesMap (replay_at u t es ?init) = applyOps ?ops []"
    using replay_first[of ?init u es t] roles listed by (simp add: getUserMatchesRealtime_def)
  have "matchesMap (replay_at u t es (replay_at u t es ?init)) =
        applyOps ?ops (matchesMap (replay_at u t es ?init))"
    by (rule replay_changes) (erule replay_clears1, erule replay_clears2)
  then have twice: "matchesMap (replay_at u t (es @ es) ?init) = applyOps ?ops (applyOps ?ops [])"
    by (simp add: replay_append once)
  show maps: "map_of (matchesMap (replay_at u t (es @ es) ?init)) = map_of (matchesMap (replay_at u t es ?init))"
    unfolding once twice by (rule applyOps_twice)
  have d0: "distinct (map fst (matchesMap ?init))"
    by (simp add: getUserMatchesRealtime_def)
  have d1: "distinct (map fst (matchesMap (replay_at u t es ?init)))"
    and d2: "distinct (map fst (matchesMap (replay_at u t (es @ es) ?init)))"
    using d0 by (rule replay_distinct)+
  show "mset (delivered (replay_at u t (es @ es) ?init)) = mset (delivered (replay_at u t es ?init))"
  proof (cases es rule: rev_cases)
    case Nil
    then show ?thesis by simp
  next
    case (snoc es' e)
    have a: "es @ es = (es @ es') @ [e]" by (simp add: snoc)
    show ?thesis
    proof (cases e)
      case (ListenError q)
      show ?thesis
        unfolding a replay_delivered unfolding snoc replay_delivered by (simp add: ListenError)
    next
      case (Snapshot q sn)
      have "delivered (replay_at u t (es @ es) ?init) = processMatches (matchesMap (replay_at u t (es @ es) ?init))"
        using replay_delivered[of u t "es @ es'" e ?init] by (simp add: a Snapshot)
      moreover have "delivered (replay_at u t es ?init) = processMatches (matchesMap (replay_at u t es ?init))"
        using replay_delivered[of u t es' e ?init] by (simp add: snoc Snapshot)
      ultimately show ?thesis
        using processMatches_mset[OF d2 d1 maps] by simp
    qed
  qed
qed

lemma replay_twice_plain:
  shows "map_of (fst (replay_plain_at t (es @ es) ([], []))) = map_of (fst (replay_plain_at t es ([], [])))"
    and "mset (snd (replay_plain_at t (es @ es) ([], []))) = mset (snd (replay_plain_at t es ([], [])))"
proof -
  let ?ops = "concat (map (setOps t) es)"
  have once: "fst (replay_plain_at t es ([], [])) = applyOps ?ops []"
    by (simp add: replay_plain_ops)
  have twice: "fst (replay_plain_at t (es @ es) ([], [])) = applyOps ?ops (applyOps ?ops [])"
    by (simp add: replay_plain_ops applyOps_append)
  show maps: "map_of (fst (replay_plain_at t (es @ es) ([], []))) = map_of (fst (replay_plain_at t es ([], [])))"
    unfolding once twice by (rule applyOps_twice)
  have d1: "distinct (map fst (fst (replay_plain_at t es ([], []))))"
    and d2: "distinct (map fst (fst (replay_plain_at t (es @ es) ([], []))))"
    unfolding replay_plain_ops by (simp_all add: applyOps_distinct)
  show "mset (snd (replay_plain_at t (es @ es) ([], []))) = mset (snd (replay_plain_at t es ([], [])))"
  proof (cases es rule: rev_cases)
    case Nil
    then show ?thesis by simp
  next
    case (snoc es' e)
    have a: "es @ es = (es @ es') @ [e]" by (simp add: snoc)
    show ?thesis
    proof (cases e)
      case (ListenError q)
      show ?thesis
        unfolding a replay_plain_delivered unfolding snoc replay_plain_delivered
        by (simp add: ListenError)
    next
      case (Snapshot q sn)
      have "snd (replay_plain_at t (es @ es) ([], [])) = processMatches (fst (replay_plain_at t (es @ es) ([], [])))"
        using replay_plain_delivered[of t "es @ es'" e "([], [])"] by (simp add: a Snapshot)
      moreover have "snd (replay_plain_at t es ([], [])) = processMatches (fst (replay_plain_at t es ([], [])))"
        using replay_plain_delivered[of t es' e "([], [])"] by (simp add: snoc Snapshot)
      ultimately show ?thesis
        using processMatches_mset[OF d2 d1 maps] by simp
    qed
  qed
qed

lemma replay_twice_created:
  assumes created: "list_all withCreatedAt es"
      and roles: "list_all (oneRole u) es" and listed: "firstSnapshotsListed True True es"
  shows "map_of (matchesMap (replay u clock (es @ es) getUserMatchesRealtime)) =
         map_of (matchesMap (replay u clock es getUserMatchesRealtime))"
    and "mset (delivered (replay u clock (es @ es) getUserMatchesRealtime)) =
         mset (delivered (replay u clock es getUserMatchesRealtime))"
proof -
  have "list_all withCreatedAt (es @ es)" using created by simp
  then have twice: "replay u clock (es @ es) getUserMatchesRealtime =
      replay_at u (\<lambda>k. 0) (es @ es) getUserMatchesRealtime"
    by (rule replay_created)
  have once: "replay u clock es getUserMatchesRealtime = replay_at u (\<lambda>k. 0) es getUserMatchesRealtime"
    using created by (rule replay_created)
  show "map_of (matchesMap (replay u clock (es @ es) getUserMatchesRealtime)) =
         map_of (matchesMap (replay u clock es getUserMatchesRealtime))"
    unfolding twice once using roles listed by (rule replay_twice_flagged(1))
  show "mset (delivered (replay u clock (es @ es) getUserMatchesRealtime)) =
         mset (delivered (replay u clock es getUserMatchesRealtime))"
    unfolding twice once using roles listed by (rule replay_twice_flagged(2))
qed

lemma replay_plain_twice_created:
  assumes created: "list_all withCreatedAt es"
  shows "map_of (fst (replay_plain clock (es @ es) ([], []))) = map_of (fst (replay_plain clock es ([], [])))"
    and "mset (snd (replay_plain clock (es @ es) ([], []))) = mset (snd (replay_plain clock es ([], [])))"
proof -
  have "list_all withCreatedAt (es @ es)" using created by simp
  then have twice: "replay_plain clock (es @ es) ([], []) = replay_plain_at (\<lambda>k. 0) (es @ es) ([], [])"
    by (rule replay_plain_created)
  have once: "replay_plain clock es ([], []) = replay_plain_at (\<lambda>k. 0) es ([], [])"
    using created by (rule replay_plain_created)
  show "map_of (fst (replay_plain clock (es @ es) ([], []))) = map_of (fst (replay_plain clock es ([], [])))"
    unfolding twice once by (rule replay_twice_plain(1))
  show "mset (snd (replay_plain clock (es @ es) ([], []))) = mset (snd (replay_plain clock es ([], [])))"
    unfolding twice once by (rule replay_twice_plain(2))
qed

lemma replay_twice_untimed:
  assumes roles: "list_all (oneRole u) es" and listed: "firstSnapshotsListed True True es"
  shows "map_of (untimed (matchesMap (replay u clock (es @ es) getUserMatchesRealtime))) =
         map_of (untimed (matchesMap (replay u clock es getUserMatchesRealtime)))"
    and "mset (map withoutTime (delivered (replay u clock (es @ es) getUserMatchesRealtime))) =
         mset (map withoutTime (delivered (replay u clock es getUserMatchesRealtime)))"
proof -
  let ?init = getUserMatchesRealtime
  have "untimed (matchesMap (replay u clock (es @ es) ?init)) =
        untimed (matchesMap (replay_at u (\<lambda>k. 0) (es @ es) ?init))"
   and "untimed (matchesMap (replay u clock es ?init)) =
        untimed (matchesMap (replay_at u (\<lambda>k. 0) es ?init))"
    by (rule replay_untimed; simp)+
  then show maps: "map_of (untimed (matchesMap (replay u clock (es @ es) ?init))) =
         map_of (untimed (matchesMap (replay u clock es ?init)))"
    using replay_twice_flagged(1)[OF roles listed, of "\<lambda>k. 0"] by (simp add: map_of_untimed)
  have d0: "distinct (map fst (matchesMap ?init))"
    by (simp add: getUserMatchesRealtime_def)
  have d1: "distinct (map fst (matchesMap (replay u clock es ?init)))"
    and d2: "distinct (map fst (matchesMap (replay u clock (es @ es) ?init)))"
    using d0 by (rule replay_keys_distinct)+
  show "mset (map withoutTime (delivered (replay u clock (es @ es) ?init))) =
         mset (map withoutTime (delivered (replay u clock es ?init)))"
  proof (cases "es = []")
    case True
    then show ?thesis by simp
  next
    case False
    then have l: "last (es @ es) = last es" and ne: "es @ es \<noteq> []" by simp_all
    show ?thesis
      unfolding replay_last_delivered[OF ne] replay_last_delivered[OF False] l
      using untimed_delivered[OF d2 d1 maps] by (cases "last es") simp_all
  qed
qed

lemma replay_plain_twice_untimed:
  shows "map_of (untimed (fst (replay_plain clock (es @ es) ([], [])))) =
         map_of (untimed (fst (replay_plain clock es ([], []))))"
    and "mset (map withoutTime (snd (replay_plain clock (es @ es) ([], [])))) =
         mset (map withoutTime (snd (replay_plain clock es ([], []))))"
proof -
  have "untimed (fst (replay_plain clock (es @ es) ([], []))) =
        untimed (fst (replay_plain_at (\<lambda>k. 0) (es @ es) ([], [])))"
   and "untimed (fst (replay_plain clock es ([], []))) =
        untimed (fst (replay_plain_at (\<lambda>k. 0) es ([], [])))"
    by (rule replay_plain_untimed; simp)+
  then show maps: "map_of (untimed (fst (replay_plain clock (es @ es) ([], [])))) =
         map_of (untimed (fst (replay_plain clock es ([], []))))"
    using replay_twice_plain(1)[of "\<lambda>k. 0" es] by (simp add: map_of_untimed)
  have d1: "distinct (map fst (fst (replay_plain clock es ([], []))))"
    and d2: "distinct (map fst (fst (replay_plain clock (es @ es) ([], []))))"
    by (rule replay_plain_keys_distinct; simp)+
  show "mset (map withoutTime (snd (replay_plain clock (es @ es) ([], [])))) =
         mset (map withoutTime (snd (replay_plain clock es ([], []))))"
  proof (cases "es = []")
    case True
    then show ?thesis by simp
  next
    case False
    then have l: "last (es @ es) = last es" and ne: "es @ es \<noteq> []" by simp_all
    show ?thesis
      unfolding replay_plain_last_delivered[OF ne] replay_plain_last_delivered[OF False] l
      using untimed_delivered[OF d2 d1 maps] by (cases "last es") simp_all
  qed
qed

text \<open>
  C6, as the code has it.  A sequence of events replayed twice, the second time at
  readings of the clock of its own, leaves a keyed map with the same keys and, but for
  the times of the matches, the same matches as the sequence replayed once, and the
  callback gets the same matches but for their times, each as often:
  \<^item> for the copy of \<^verbatim>\<open>getUserMatchesRealtime\<close> without first-load flags, for every
    sequence of events;
  \<^item> for the copy with \<^verbatim>\<open>handleSnapshot\<close>, for every sequence in which no delivered
    document satisfies both queries and the first snapshot of each query lists its
    documents as added changes.

  When every delivered document has its \<open>createdAt\<close> the times are the same too: the maps
  are equal and the callback gets the same matches, each as often (their order among
  equal times may differ).
\<close>

theorem replay_twice_same_map:
  "(map_of (untimed (fst (replay_plain clock (events @ events) ([], [])))) =
      map_of (untimed (fst (replay_plain clock events ([], [])))) \<and>
    mset (map withoutTime (snd (replay_plain clock (events @ events) ([], [])))) =
      mset (map withoutTime (snd (replay_plain clock events ([], []))))) \<and>
   (list_all withCreatedAt events \<longrightarrow>
      map_of (fst (replay_plain clock (events @ events) ([], []))) =
        map_of (fst (replay_plain clock events ([], []))) \<and>
      mset (snd (replay_plain clock (events @ events) ([], []))) =
        mset (snd (replay_plain clock events ([], [])))) \<and>
   (list_all (oneRole userId) events \<and> firstSnapshotsListed True True events \<longrightarrow>
      map_of (untimed (matchesMap (replay userId clock (events @ events) getUserMatchesRealtime))) =
        map_of (untimed (matchesMap (replay userId clock events getUserMatchesRealtime))) \<and>
      mset (map withoutTime (delivered (replay userId clock (events @ events) getUserMatchesRealtime))) =
        mset (map withoutTime (delivered (replay userId clock events getUserMatchesRealtime))) \<and>
      (list_all withCreatedAt events \<longrightarrow>
         map_of (matchesMap (replay userId clock (events @ events) getUserMatchesRealtime)) =
           map_of (matchesMap (replay userId clock events getUserMatchesRealtime)) \<and>
         mset (delivered (replay userId clock (events @ events) getUserMatchesRealtime)) =
           mset (delivered (replay userId clock events getUserMatchesRealtime))))"
  using replay_plain_twice_untimed[of clock events] replay_plain_twice_created[of events clock]
    replay_twice_untimed[of userId events clock] replay_twice_created[of events userId clock]
  by blast

theorem replay_twice_same_map_witness:
  "list_all withCreatedAt events_a \<and>
   list_all (oneRole ''a'') events_a \<and> firstSnapshotsListed True True events_a \<and>
   matchesMap (replay ''a'' ticks events_a getUserMatchesRealtime) =
     [(''m2'', toMatch 110 ''m2'' match_doc_ca)] \<and>
   map_of (matchesMap (replay ''a'' ticks (events_a @ events_a) getUserMatchesRealtime)) =
     map_of [(''m2'', toMatch 110 ''m2'' match_doc_ca)] \<and>
   mset (delivered (replay ''a'' ticks (events_a @ events_a) getUserMatchesRealtime)) =
     {#toMatch 110 ''m2'' match_doc_ca#} \<and>
   list_all (oneRole ''a'') events_pending \<and> firstSnapshotsListed True True events_pending \<and>
   matchesMap (replay ''a'' ticks events_pending getUserMatchesRealtime) =
     [(''m1'', toMatch 100 ''m1'' match_doc_pending)] \<and>
   map_of (untimed (matchesMap (replay ''a'' ticks (events_pending @ events_pending)
      getUserMatchesRealtime))) =
     map_of [(''m1'', withoutTime (toMatch 100 ''m1'' match_doc_pending))] \<and>
   fst (replay_plain ticks events_pending ([], [])) =
     [(''m1'', toMatch 100 ''m1'' match_doc_pending)] \<and>
   map_of (untimed (fst (replay_plain ticks (events_pending @ events_pending) ([], [])))) =
     map_of [(''m1'', withoutTime (toMatch 100 ''m1'' match_doc_pending))]"
proof -
  have c: "list_all withCreatedAt events_a"
    by (simp add: events_a_def allAdded_def match_doc_ab_def match_doc_ca_def matchFields_def)
  have r: "list_all (oneRole ''a'') events_a"
    by (simp add: events_a_def otherParticipant_def allAdded_def match_doc_ab_def
        match_doc_ca_def matchFields_def match_ab_def or_string_def)
  have l: "firstSnapshotsListed True True events_a"
    by (simp add: events_a_def allAdded_def)
  have once: "replay ''a'' ticks events_a getUserMatchesRealtime =
     \<lparr>matchesMap = [(''m2'', toMatch 110 ''m2'' match_doc_ca)], isFirstLoad1 = False,
      isFirstLoad2 = False, delivered = [toMatch 110 ''m2'' match_doc_ca]\<rparr>"
    by (simp add: replay_def events_a_def getUserMatchesRealtime_def handleSnapshot_def
        staleEntry_def applyChange_def allAdded_def toMatch_def match_doc_ab_def
        match_doc_ca_def matchFields_def match_ab_def or_string_def processMatches_def Let_def)
  have rp: "list_all (oneRole ''a'') events_pending"
    by (simp add: events_pending_def otherParticipant_def allAdded_def match_doc_ab_def
        match_doc_pending_def matchFields_def match_ab_def or_string_def)
  have lp: "firstSnapshotsListed True True events_pending"
    by (simp add: events_pending_def allAdded_def)
  have oncep: "matchesMap (replay ''a'' ticks events_pending getUserMatchesRealtime) =
     [(''m1'', toMatch 100 ''m1'' match_doc_pending)]"
    by (simp add: replay_def events_pending_def getUserMatchesRealtime_def handleSnapshot_def
        staleEntry_def ticks_def toMatch_def match_doc_ab_def match_doc_pending_def
        matchFields_def match_ab_def or_string_def Let_def)
  have plainp: "fst (replay_plain ticks events_pending ([], [])) =
     [(''m1'', toMatch 100 ''m1'' match_doc_pending)]"
    by (simp add: replay_plain_def events_pending_def setAll_def ticks_def Let_def)
  have u: "untimed [(''m1'', toMatch 100 ''m1'' match_doc_pending)] =
     [(''m1'', withoutTime (toMatch 100 ''m1'' match_doc_pending))]"
    by (simp add: untimed_def)
  show ?thesis
    using replay_twice_same_map [of ticks events_a "''a''"]
      replay_twice_same_map [of ticks events_pending "''a''"] c r l rp lp
    by (simp add: once oncep plainp u)
qed

text \<open>
  A match of a profile with itself satisfies both queries.  When the first snapshot of
  the first query holds it and the first snapshot of the second query, taken earlier, does
  not, the first load of the second query deletes it; on the replay both snapshots are
  handled as changes and it stays.  A match whose document has no \<open>createdAt\<close> yet gets
  the time of the clock: replayed, it gets the later time of the second run, in both
  copies of the merge.
\<close>

theorem replay_twice_differs_counterexample:
  "firstSnapshotsListed True True events_self \<and> list_all withCreatedAt events_self \<and>
   matchesMap (replay ''a'' ticks events_self getUserMatchesRealtime) = [] \<and>
   matchesMap (replay ''a'' ticks (events_self @ events_self) getUserMatchesRealtime) =
     [(''m3'', toMatch 100 ''m3'' match_doc_aa)] \<and>
   map_of (matchesMap (replay ''a'' ticks (events_self @ events_self) getUserMatchesRealtime)) \<noteq>
   map_of (matchesMap (replay ''a'' ticks events_self getUserMatchesRealtime)) \<and>
   firstSnapshotsListed True True events_pending \<and> list_all (oneRole ''a'') events_pending \<and>
   matchesMap (replay ''a'' ticks events_pending getUserMatchesRealtime) =
     [(''m1'', toMatch 100 ''m1'' match_doc_pending)] \<and>
   matchesMap (replay ''a'' ticks (events_pending @ events_pending) getUserMatchesRealtime) =
     [(''m1'', toMatch 110 ''m1'' match_doc_pending)] \<and>
   map_of (matchesMap (replay ''a'' ticks (events_pending @ events_pending) getUserMatchesRealtime)) \<noteq>
   map_of (matchesMap (replay ''a'' ticks events_pending getUserMatchesRealtime)) \<and>
   fst (replay_plain ticks events_pending ([], [])) =
     [(''m1'', toMatch 100 ''m1'' match_doc_pending)] \<and>
   fst (replay_plain ticks (events_pending @ events_pending) ([], [])) =
     [(''m1'', toMatch 110 ''m1'' match_doc_pending)] \<and>
   map_of (fst (replay_plain ticks (events_pending @ events_pending) ([], []))) \<noteq>
   map_of (fst (replay_plain ticks events_pending ([], [])))"
proof -
  have once: "matchesMap (replay ''a'' ticks events_self getUserMatchesRealtime) = []"
    by (simp add: replay_def events_self_def getUserMatchesRealtime_def handleSnapshot_def
        staleEntry_def applyChange_def allAdded_def toMatch_def match_doc_aa_def matchFields_def
        match_ab_def or_string_def processMatches_def Let_def)
  have twice: "matchesMap (replay ''a'' ticks (events_self @ events_self) getUserMatchesRealtime) =
     [(''m3'', toMatch 100 ''m3'' match_doc_aa)]"
    by (simp add: replay_def events_self_def getUserMatchesRealtime_def handleSnapshot_def
        staleEntry_def applyChange_def allAdded_def toMatch_def match_doc_aa_def matchFields_def
        match_ab_def or_string_def processMatches_def Let_def)
  have l: "firstSnapshotsListed True True events_self" "list_all withCreatedAt events_self"
    by (simp_all add: events_self_def allAdded_def match_doc_aa_def matchFields_def)
  have lp: "firstSnapshotsListed True True events_pending" "list_all (oneRole ''a'') events_pending"
    by (simp_all add: events_pending_def otherParticipant_def allAdded_def match_doc_ab_def
        match_doc_pending_def matchFields_def match_ab_def or_string_def)
  have p1: "matchesMap (replay ''a'' ticks events_pending getUserMatchesRealtime) =
     [(''m1'', toMatch 100 ''m1'' match_doc_pending)]"
    by (simp add: replay_def events_pending_def getUserMatchesRealtime_def handleSnapshot_def
        staleEntry_def ticks_def toMatch_def match_doc_ab_def match_doc_pending_def
        matchFields_def match_ab_def or_string_def Let_def)
  have p2: "matchesMap (replay ''a'' ticks (events_pending @ events_pending) getUserMatchesRealtime) =
     [(''m1'', toMatch 110 ''m1'' match_doc_pending)]"
    by (simp add: replay_def events_pending_def getUserMatchesRealtime_def handleSnapshot_def
        staleEntry_def applyChange_def allAdded_def ticks_def toMatch_def match_doc_ab_def
        match_doc_pending_def matchFields_def match_ab_def or_string_def Let_def)
  have q1: "fst (replay_plain ticks events_pending ([], [])) =
     [(''m1'', toMatch 100 ''m1'' match_doc_pending)]"
    by (simp add: replay_plain_def events_pending_def setAll_def ticks_def toMatch_def
        match_doc_pending_def Let_def)
  have q2: "fst (replay_plain ticks (events_pending @ events_pending) ([], [])) =
     [(''m1'', toMatch 110 ''m1'' match_doc_pending)]"
    by (simp add: replay_plain_def events_pending_def setAll_def ticks_def toMatch_def
        match_doc_pending_def Let_def)
  have "toMatch 110 ''m1'' match_doc_pending \<noteq> toMatch 100 ''m1'' match_doc_pending"
    by (simp add: toMatch_def match_doc_pending_def)
  then have ne: "map_of [(''m1'', toMatch 110 ''m1'' match_doc_pending)] \<noteq>
      map_of [(''m1'', toMatch 100 ''m1'' match_doc_pending)]"
    by (auto dest: map_upd_eqD1)
  show ?thesis
    unfolding once twice p1 p2 q1 q2 using l lp ne by simp
qed


end
